theory Spec2Isabelle
  imports Complex_Main
begin

section \<open>Relevancy scoring of completion candidates (ranking.js)\<close>

text \<open>
  The module scores a candidate (a URL and an optional title) against the query terms a
  user typed. Text is matched with regular expressions that a cache object builds from the
  terms; the scores are host numbers.

  Modelling decisions:
  \<^item> a string is a \<open>char list\<close>, one \<open>char\<close> for each code unit. The type \<open>char\<close> has the code
    units 0 to 255, so the strings of the theory are the strings over the Latin-1 range;
    letter case and case folding are the host's on that range;
  \<^item> a regular expression object is a record carrying the identity it was allocated with
    (reference equality is equality of \<open>ident\<close>), its source, its \<open>ignoreCase\<close> flag and its
    matcher: the function that tries the compiled pattern at one position of a string;
  \<^item> the theory itself compiles the sources made of literal characters, escaped
    characters, the word-boundary assertion, capture groups and character classes that
    list their members. This covers every source the module asks for and the ones of its
    tests. Every other source is handed to the parameter \<open>h\<close>, the compiler of the host for
    the rest of the pattern language: it rejects the source or gives its matcher. A
    function that may compile a pattern takes \<open>h\<close> as its first argument, and what is
    proved holds for every \<open>h\<close>;
  \<^item> the cache object is a record \<open>initialized\<close>, \<open>cache\<close> and the number of objects
    allocated so far. \<open>cache\<close> holds the own properties of the plain object the program
    stores the patterns in. Reading a property of that object also finds the properties
    every plain object inherits (such as \<open>constructor\<close>); the value read is then not a
    regular expression;
  \<^item> a host number is an exact rational, an infinity or NaN; rounding and the sign of zero
    are not modelled;
  \<^item> the clock read by \<open>recencyScore\<close> is a parameter.
\<close>

subsection \<open>Characters\<close>

definition backslash :: char where
  "backslash = CHR 0x5C"

definition lowerCaseLetters :: string where
  "lowerCaseLetters = ''abcdefghijklmnopqrstuvwxyz''"

definition upperCaseLetters :: string where
  "upperCaseLetters = ''ABCDEFGHIJKLMNOPQRSTUVWXYZ''"

definition digitCharacters :: string where
  "digitCharacters = ''0123456789''"

definition isDigit :: "char \<Rightarrow> bool" where
  "isDigit c = (c \<in> set digitCharacters)"

text \<open>The code unit of a character.\<close>

definition codeUnit :: "char \<Rightarrow> nat" where
  "codeUnit c = of_char c"

text \<open>
  The upper-case letters among the code units below 256: \<open>A\<close> to \<open>Z\<close> and the letters from
  U+00C0 to U+00DE (U+00D7 is the multiplication sign). These are the code units that
  the conversion to lower case changes.
\<close>

definition isUpperCase :: "char \<Rightarrow> bool" where
  "isUpperCase c =
     (let n = codeUnit c
      in (65 \<le> n \<and> n \<le> 90) \<or> (192 \<le> n \<and> n \<le> 222 \<and> n \<noteq> 215))"

text \<open>
  Canonicalisation of a character under the \<open>i\<close> flag: the code unit of its upper-case form
  when that form is a single code unit, and the character's own code unit otherwise (a
  character outside ASCII is also left alone if its upper-case form is inside ASCII). Below
  256 the letters \<open>a\<close> to \<open>z\<close> and U+00E0 to U+00FE (U+00F7 is the division sign) have their
  upper-case form 32 code units lower; U+00B5 and U+00FF have theirs at U+039C and
  U+0178; the upper-case form of U+00DF is two code units long; nothing else changes.
\<close>

definition canonicalize :: "char \<Rightarrow> nat" where
  "canonicalize c =
     (let n = codeUnit c
      in if 97 \<le> n \<and> n \<le> 122 then n - 32
         else if 224 \<le> n \<and> n \<le> 254 \<and> n \<noteq> 247 then n - 32
         else if n = 181 then 924
         else if n = 255 then 376
         else n)"

definition charEq :: "bool \<Rightarrow> char \<Rightarrow> char \<Rightarrow> bool" where
  "charEq ic a b = (if ic then canonicalize a = canonicalize b else a = b)"

text \<open>The word characters of the \<open>\b\<close> assertion: ASCII letters, digits and the underscore.\<close>

definition isWordChar :: "char \<Rightarrow> bool" where
  "isWordChar c =
     (c \<in> set (lowerCaseLetters @ upperCaseLetters @ digitCharacters @ ''_''))"

subsection \<open>The collaborating utilities\<close>

text \<open>
  Modelled from the spec: \<open>Utils.escapeRegexSpecialCharacters\<close> is not part of the sources.
  The spec describes it as the routine that neutralises the matching metacharacters of
  arbitrary input so that the term is treated literally: every metacharacter is preceded
  by a backslash.
\<close>

definition regexSpecialCharacters :: string where
  "regexSpecialCharacters = ''-[]/{}()*+?.^$|'' @ [backslash]"

definition isSpecial :: "char \<Rightarrow> bool" where
  "isSpecial c = (c \<in> set regexSpecialCharacters)"

fun escapeRegexSpecialCharacters :: "string \<Rightarrow> string" where
  "escapeRegexSpecialCharacters [] = []"
| "escapeRegexSpecialCharacters (c # cs) =
     (if isSpecial c then backslash # c # escapeRegexSpecialCharacters cs
      else c # escapeRegexSpecialCharacters cs)"

text \<open>
  Modelled from the spec: \<open>Utils.hasUpperCase\<close> is not part of the sources. The spec
  describes it as the case-detection routine deciding whether the raw term contains at
  least one upper-case letter.
\<close>

definition hasUpperCase :: "string \<Rightarrow> bool" where
  "hasUpperCase s = list_ex isUpperCase s"

subsection \<open>Regular expressions\<close>

text \<open>A class lists the characters it accepts.\<close>

datatype node = Chr char | WordBoundary | Group "node list" | Class "char list"

datatype error = SyntaxError | TypeError

text \<open>
  What the parser of the theory makes of a source: its nodes, the verdict that no host
  compiles it, or the verdict that it uses a construct the theory does not parse.
\<close>

datatype parsed = Parsed "node list" | Malformed | OutsideFragment

text \<open>
  The parser reads the source left to right. \<open>acc\<close> holds the nodes of the group being
  read, last first; \<open>stack\<close> holds the same for the enclosing groups; \<open>cls\<close> holds the
  members read so far, last first, while a class is being read. A closing bracket or
  brace outside a class is a literal character, and so is an opening brace that a digit
  does not follow.
\<close>

fun parseRegexp ::
  "node list \<Rightarrow> node list list \<Rightarrow> string option \<Rightarrow> string \<Rightarrow> parsed" where
  "parseRegexp acc stack cls [] =
     (if cls = None \<and> stack = [] then Parsed (rev acc) else Malformed)"
| "parseRegexp acc stack (Some members) (c # cs) =
     (if c = CHR '']'' then parseRegexp (Class (rev members) # acc) stack None cs
      else if c = backslash \<or> c = CHR ''-'' \<or> (c = CHR ''^'' \<and> members = [])
        then OutsideFragment
      else parseRegexp acc stack (Some (c # members)) cs)"
| "parseRegexp acc stack None (c # cs) =
     (if c = backslash then
        (case cs of
           [] \<Rightarrow> Malformed
         | d # ds \<Rightarrow>
             if d = CHR ''b'' then parseRegexp (WordBoundary # acc) stack None ds
             else if isSpecial d then parseRegexp (Chr d # acc) stack None ds
             else OutsideFragment)
      else if c = CHR ''('' then parseRegexp [] (acc # stack) None cs
      else if c = CHR '')'' then
        (case stack of
           [] \<Rightarrow> Malformed
         | outer # stack' \<Rightarrow> parseRegexp (Group (rev acc) # outer) stack' None cs)
      else if c = CHR ''['' then parseRegexp acc stack (Some []) cs
      else if c = CHR ''{'' \<and> cs \<noteq> [] \<and> isDigit (hd cs) then OutsideFragment
      else if c \<in> set ''*+?.^$|'' then OutsideFragment
      else parseRegexp (Chr c # acc) stack None cs)"

text \<open>
  A position in the subject string is the character before it (if any) and the rest of the
  string from it. \<open>\b\<close> holds where exactly one of the two neighbours is a word character.
\<close>

definition isWordBoundary :: "char option \<Rightarrow> string \<Rightarrow> bool" where
  "isWordBoundary prev rest =
     ((case prev of None \<Rightarrow> False | Some c \<Rightarrow> isWordChar c)
        \<noteq> (case rest of [] \<Rightarrow> False | c # _ \<Rightarrow> isWordChar c))"

text \<open>
  Matching a sequence of nodes at a position: the position after the match and the texts
  captured by the groups, in the order of their opening parentheses.
\<close>

fun matchNodes ::
  "bool \<Rightarrow> node list \<Rightarrow> char option \<Rightarrow> string \<Rightarrow> (char option \<times> string \<times> string list) option"
where
  "matchNodes ic [] prev rest = Some (prev, rest, [])"
| "matchNodes ic (Chr c # ns) prev rest =
     (case rest of
        [] \<Rightarrow> None
      | x # xs \<Rightarrow> if charEq ic c x then matchNodes ic ns (Some x) xs else None)"
| "matchNodes ic (WordBoundary # ns) prev rest =
     (if isWordBoundary prev rest then matchNodes ic ns prev rest else None)"
| "matchNodes ic (Group g # ns) prev rest =
     (case matchNodes ic g prev rest of
        None \<Rightarrow> None
      | Some (prev', rest', caps) \<Rightarrow>
          (case matchNodes ic ns prev' rest' of
             None \<Rightarrow> None
           | Some (prev'', rest'', caps') \<Rightarrow>
               Some (prev'', rest'', take (length rest - length rest') rest # caps @ caps')))"
| "matchNodes ic (Class members # ns) prev rest =
     (case rest of
        [] \<Rightarrow> None
      | x # xs \<Rightarrow>
          if list_ex (\<lambda>c. charEq ic c x) members then matchNodes ic ns (Some x) xs else None)"

text \<open>
  A matcher is a match attempt at one position: the number of characters matched and the
  captures. (A capture group that takes no part in a match has no text; no pattern the
  theory parses has such a group.)
\<close>

type_synonym matcher = "char option \<Rightarrow> string \<Rightarrow> (nat \<times> string list) option"

definition nodesMatcher :: "bool \<Rightarrow> node list \<Rightarrow> matcher" where
  "nodesMatcher ic ns prev rest =
     (case matchNodes ic ns prev rest of
        None \<Rightarrow> None
      | Some (prev', rest', caps) \<Rightarrow> Some (length rest - length rest', caps))"

text \<open>
  The compiler of the host for the sources the theory does not parse: given the source
  and the \<open>ignoreCase\<close> flag, \<open>None\<close> if the source is rejected.
\<close>

type_synonym host = "string \<Rightarrow> bool \<Rightarrow> matcher option"

definition compile :: "host \<Rightarrow> string \<Rightarrow> bool \<Rightarrow> error + matcher" where
  "compile h src ic =
     (case parseRegexp [] [] None src of
        Parsed ns \<Rightarrow> Inr (nodesMatcher ic ns)
      | Malformed \<Rightarrow> Inl SyntaxError
      | OutsideFragment \<Rightarrow>
          (case h src ic of None \<Rightarrow> Inl SyntaxError | Some m \<Rightarrow> Inr m))"

record regexp =
  ident :: nat
  source :: string
  ignoreCase :: bool
  matcher :: matcher

text \<open>\<open>new RegExp(source, flags)\<close>, allocated with identity \<open>i\<close>.\<close>

definition newRegExp :: "host \<Rightarrow> nat \<Rightarrow> string \<Rightarrow> string \<Rightarrow> error + regexp" where
  "newRegExp h i src flags =
     (case compile h src (CHR ''i'' \<in> set flags) of
        Inl e \<Rightarrow> Inl e
      | Inr m \<Rightarrow>
          Inr \<lparr>ident = i, source = src, ignoreCase = (CHR ''i'' \<in> set flags), matcher = m\<rparr>)"

text \<open>The search of an expression without the global or sticky flag: the leftmost match.\<close>

fun regexpExec :: "matcher \<Rightarrow> char option \<Rightarrow> string \<Rightarrow> (nat \<times> string list) option" where
  "regexpExec m prev [] = m prev []"
| "regexpExec m prev (x # xs) =
     (case m prev (x # xs) of
        Some found \<Rightarrow> Some found
      | None \<Rightarrow> regexpExec m (Some x) xs)"

text \<open>\<open>regexp.test(string)\<close>\<close>

definition test :: "regexp \<Rightarrow> string \<Rightarrow> bool" where
  "test r string = (regexpExec (matcher r) None string \<noteq> None)"

text \<open>
  Splitting a string on a separator that is tried at each position. \<open>piece\<close> is the text
  between the end \<open>p\<close> of the last separator and the position \<open>q\<close> under examination. A
  match that ends at \<open>p\<close> (an empty match right after the last separator) is skipped; any
  other match closes the piece, and the captures of the match follow it in the result. The
  end of a match is never taken beyond the end of the string.
\<close>

function splitLoop :: "matcher \<Rightarrow> string \<Rightarrow> char option \<Rightarrow> string \<Rightarrow> string list" where
  "splitLoop m piece prev rest =
     (case rest of
        [] \<Rightarrow> [piece]
      | x # xs \<Rightarrow>
          (case m prev rest of
             None \<Rightarrow> splitLoop m (piece @ [x]) (Some x) xs
           | Some (n, caps) \<Rightarrow>
               let n = min n (length rest)
               in if n = 0 \<and> piece = [] then splitLoop m (piece @ [x]) (Some x) xs
                  else piece # caps @
                       splitLoop m [] (if n = 0 then prev else Some (rest ! (n - 1)))
                         (drop n rest)))"
  by pat_completeness auto
termination
  by (relation "measure (\<lambda>(m, piece, prev, rest). 2 * length rest + (if piece = [] then 0 else 1))")
     (auto simp: Let_def)

definition splitOn :: "string \<Rightarrow> matcher \<Rightarrow> string list" where
  "splitOn string m =
     (if string = [] then (if m None [] \<noteq> None then [] else [string])
      else splitLoop m [] None string)"

text \<open>\<open>string.split(regexp)\<close>\<close>

definition split :: "string \<Rightarrow> regexp \<Rightarrow> string list" where
  "split string r = splitOn string (matcher r)"

text \<open>A separator that is a string matches where the string continues with it.\<close>

definition stringSeparator :: "string \<Rightarrow> matcher" where
  "stringSeparator separator prev rest =
     (if take (length separator) rest = separator then Some (length separator, []) else None)"

subsection \<open>The properties a plain object inherits\<close>

text \<open>
  The object literal \<open>{}\<close> has the prototype \<open>Object.prototype\<close>, so reading one of the
  following names from it finds a value although the object has no such property of its
  own: a built-in function, or (for \<open>__proto__\<close>) the prototype itself.
\<close>

definition inheritedNames :: "string list" where
  "inheritedNames =
     [''constructor'', ''hasOwnProperty'', ''isPrototypeOf'', ''propertyIsEnumerable'',
      ''toLocaleString'', ''toString'', ''valueOf'', ''__proto__'',
      ''__defineGetter__'', ''__defineSetter__'', ''__lookupGetter__'', ''__lookupSetter__'']"

definition inheritedName :: "string \<Rightarrow> bool" where
  "inheritedName key = (key \<in> set inheritedNames)"

text \<open>
  The values the program reads from the cache object: a regular expression it has stored,
  or the value inherited under a name. The inherited values are twelve different objects.
\<close>

datatype jsValue = RegExpValue regexp | InheritedValue string

text \<open>Reference equality of two such values.\<close>

fun sameObject :: "jsValue \<Rightarrow> jsValue \<Rightarrow> bool" where
  "sameObject (RegExpValue r) (RegExpValue r') = (ident r = ident r')"
| "sameObject (InheritedValue k) (InheritedValue k') = (k = k')"
| "sameObject _ _ = False"

text \<open>
  The conversion of an inherited value to a string. The prototype converts to
  \<open>[object Object]\<close>. The text of a built-in function is left to the host within a fixed
  form; the one used here is that of the V8 engine, on which the tests of the module run.
  The function inherited as \<open>constructor\<close> is named \<open>Object\<close>, every other one is named as
  the property.
\<close>

definition inheritedToString :: "string \<Rightarrow> string" where
  "inheritedToString key =
     (if key = ''__proto__'' then ''[object Object]''
      else ''function '' @ (if key = ''constructor'' then ''Object'' else key)
             @ ''() { [native code] }'')"

text \<open>\<open>object[key]\<close> on the cache object whose own properties are \<open>own\<close>.\<close>

definition getProperty :: "(string \<rightharpoonup> regexp) \<Rightarrow> string \<Rightarrow> jsValue option" where
  "getProperty own key =
     (case own key of
        Some r \<Rightarrow> Some (RegExpValue r)
      | None \<Rightarrow> if inheritedName key then Some (InheritedValue key) else None)"

text \<open>
  \<open>string.match(value)\<close>, as a truth value. A value that is not a regular expression is
  converted to a string, from which a new expression without flags is made for the search.
\<close>

definition stringMatch :: "host \<Rightarrow> string \<Rightarrow> jsValue \<Rightarrow> error + bool" where
  "stringMatch h string v =
     (case v of
        RegExpValue r \<Rightarrow> Inr (regexpExec (matcher r) None string \<noteq> None)
      | InheritedValue key \<Rightarrow>
          (case compile h (inheritedToString key) False of
             Inl e \<Rightarrow> Inl e
           | Inr m \<Rightarrow> Inr (regexpExec m None string \<noteq> None)))"

text \<open>
  \<open>string.split(value)\<close>. A value that is not a regular expression is converted to a
  string, which is the separator.
\<close>

definition splitValue :: "string \<Rightarrow> jsValue \<Rightarrow> string list" where
  "splitValue string v =
     (case v of
        RegExpValue r \<Rightarrow> split string r
      | InheritedValue key \<Rightarrow> splitOn string (stringSeparator (inheritedToString key)))"

text \<open>\<open>value.test(string)\<close>. No inherited value has a method \<open>test\<close>.\<close>

definition testValue :: "jsValue \<Rightarrow> string \<Rightarrow> error + bool" where
  "testValue v string =
     (case v of
        RegExpValue r \<Rightarrow> Inr (test r string)
      | InheritedValue key \<Rightarrow> Inl TypeError)"

subsection \<open>The pattern cache (RegexpCache)\<close>

record RegexpCache =
  initialized :: bool
  cache :: "string \<rightharpoonup> regexp"
  allocated :: nat

text \<open>The cache object as the module creates it: neither \<open>initialized\<close> nor \<open>cache\<close> is set.\<close>

definition newRegexpCache :: RegexpCache where
  "newRegexpCache = \<lparr>initialized = False, cache = Map.empty, allocated = 0\<rparr>"

definition clear :: "RegexpCache \<Rightarrow> RegexpCache" where
  "clear this = this\<lparr>cache := Map.empty\<rparr>"

definition init :: "RegexpCache \<Rightarrow> RegexpCache" where
  "init this = clear (this\<lparr>initialized := True\<rparr>)"

text \<open>The key under which \<open>get\<close> caches: the pattern source it builds.\<close>

definition regexpString :: "string \<Rightarrow> string option \<Rightarrow> string option \<Rightarrow> string" where
  "regexpString string prefix suffix =
     (let prefix = (case prefix of None \<Rightarrow> [] | Some p \<Rightarrow> p);
          suffix = (case suffix of None \<Rightarrow> [] | Some x \<Rightarrow> x);
          regexpString = escapeRegexSpecialCharacters string;
          regexpString = (if prefix \<noteq> [] then prefix @ regexpString else regexpString);
          regexpString = (if suffix \<noteq> [] then regexpString @ suffix else regexpString)
      in regexpString)"

text \<open>
  \<open>get(string, prefix, suffix)\<close>: the value read from the cache object under the key, or
  else a new expression, compiled case-insensitively unless \<open>string\<close> has an upper-case
  letter, which is then stored under the key. A source the constructor rejects raises; the
  cache is then left as it was after the initialisation.
\<close>

definition get ::
  "host \<Rightarrow> RegexpCache \<Rightarrow> string \<Rightarrow> string option \<Rightarrow> string option
     \<Rightarrow> error + (jsValue \<times> RegexpCache)"
where
  "get h this string prefix suffix =
     (let this = (if \<not> initialized this then init this else this);
          key = regexpString string prefix suffix
      in case getProperty (cache this) key of
           Some v \<Rightarrow> Inr (v, this)
         | None \<Rightarrow>
             (case newRegExp h (allocated this) key (if hasUpperCase string then [] else ''i'') of
                Inl e \<Rightarrow> Inl e
              | Inr r \<Rightarrow>
                  Inr (RegExpValue r,
                       this\<lparr>cache := (cache this)(key \<mapsto> r),
                             allocated := Suc (allocated this)\<rparr>)))"

subsection \<open>Filtering: matches\<close>

text \<open>The inner loop of \<open>matches\<close>: \<open>matchedTerm\<close> is carried through the things.\<close>

fun matchThings :: "host \<Rightarrow> jsValue \<Rightarrow> string list \<Rightarrow> bool \<Rightarrow> error + bool" where
  "matchThings h v [] matchedTerm = Inr matchedTerm"
| "matchThings h v (thing # things) matchedTerm =
     (if \<not> matchedTerm then
        (case stringMatch h thing v of
           Inl e \<Rightarrow> Inl e
         | Inr found \<Rightarrow> matchThings h v things found)
      else matchThings h v things matchedTerm)"

fun matches ::
  "host \<Rightarrow> RegexpCache \<Rightarrow> string list \<Rightarrow> string list \<Rightarrow> error + (bool \<times> RegexpCache)" where
  "matches h this [] things = Inr (True, this)"
| "matches h this (term # queryTerms) things =
     (case get h this term None None of
        Inl e \<Rightarrow> Inl e
      | Inr (regexp, this') \<Rightarrow>
          (case matchThings h regexp things False of
             Inl e \<Rightarrow> Inl e
           | Inr matchedTerm \<Rightarrow>
               if \<not> matchedTerm then Inr (False, this')
               else matches h this' queryTerms things))"

subsection \<open>Scoring one term: scoreTerm\<close>

definition matchAnywhere :: int where "matchAnywhere = 1"
definition matchStartOfWord :: int where "matchStartOfWord = 1"
definition matchWholeWord :: int where "matchWholeWord = 1"
definition maximumScore :: int where "maximumScore = 3"
definition recencyCalibrator :: rat where "recencyCalibrator = 2 / 3"

definition wordBoundaryAffix :: string where
  "wordBoundaryAffix = [backslash, CHR ''b'']"

text \<open>\<open>nonMatching.reduce((p, c) => p - c.length, string.length)\<close>\<close>

definition matchedCount :: "string list \<Rightarrow> string \<Rightarrow> int" where
  "matchedCount nonMatching string =
     foldl (\<lambda>p c. p - int (length c)) (int (length string)) nonMatching"

definition scoreTerm ::
  "host \<Rightarrow> RegexpCache \<Rightarrow> string \<Rightarrow> string \<Rightarrow> error + ((int \<times> int) \<times> RegexpCache)" where
  "scoreTerm h this term string =
     (case get h this term None None of
        Inl e \<Rightarrow> Inl e
      | Inr (v, this1) \<Rightarrow>
          let nonMatching = splitValue string v;
              capped = (\<lambda>count. if count < int (length string) then count
                                 else int (length string))
          in if length nonMatching > 1 then
               let score = matchAnywhere;
                   count = matchedCount nonMatching string
               in (case get h this1 term (Some wordBoundaryAffix) None of
                     Inl e \<Rightarrow> Inl e
                   | Inr (vStart, this2) \<Rightarrow>
                       (case testValue vStart string of
                          Inl e \<Rightarrow> Inl e
                        | Inr atStart \<Rightarrow>
                            if atStart then
                              (case get h this2 term (Some wordBoundaryAffix)
                                      (Some wordBoundaryAffix) of
                                 Inl e \<Rightarrow> Inl e
                               | Inr (vWhole, this3) \<Rightarrow>
                                   (case testValue vWhole string of
                                      Inl e \<Rightarrow> Inl e
                                    | Inr whole \<Rightarrow>
                                        if whole
                                        then Inr ((score + matchStartOfWord + matchWholeWord,
                                                   capped count), this3)
                                        else Inr ((score + matchStartOfWord, capped count),
                                                  this3)))
                            else Inr ((score, capped count), this2)))
             else Inr ((0, capped 0), this1))"

subsection \<open>Host numbers\<close>

datatype number = NaN | PosInf | NegInf | Num rat

definition signedInf :: "bool \<Rightarrow> number" where
  "signedInf positive = (if positive then PosInf else NegInf)"

fun jsNeg :: "number \<Rightarrow> number" where
  "jsNeg NaN = NaN"
| "jsNeg PosInf = NegInf"
| "jsNeg NegInf = PosInf"
| "jsNeg (Num a) = Num (- a)"

fun jsAdd :: "number \<Rightarrow> number \<Rightarrow> number" where
  "jsAdd (Num a) (Num b) = Num (a + b)"
| "jsAdd NaN _ = NaN"
| "jsAdd _ NaN = NaN"
| "jsAdd PosInf NegInf = NaN"
| "jsAdd NegInf PosInf = NaN"
| "jsAdd PosInf _ = PosInf"
| "jsAdd NegInf _ = NegInf"
| "jsAdd _ PosInf = PosInf"
| "jsAdd _ NegInf = NegInf"

definition jsSub :: "number \<Rightarrow> number \<Rightarrow> number" where
  "jsSub a b = jsAdd a (jsNeg b)"

text \<open>The sign of a number that is not NaN: \<open>None\<close> for zero.\<close>

fun positiveSign :: "number \<Rightarrow> bool option" where
  "positiveSign NaN = None"
| "positiveSign PosInf = Some True"
| "positiveSign NegInf = Some False"
| "positiveSign (Num a) = (if a = 0 then None else Some (0 < a))"

fun jsMul :: "number \<Rightarrow> number \<Rightarrow> number" where
  "jsMul (Num a) (Num b) = Num (a * b)"
| "jsMul NaN _ = NaN"
| "jsMul _ NaN = NaN"
| "jsMul a b =
     (case (positiveSign a, positiveSign b) of
        (Some sa, Some sb) \<Rightarrow> signedInf (sa = sb)
      | _ \<Rightarrow> NaN)"

fun jsDiv :: "number \<Rightarrow> number \<Rightarrow> number" where
  "jsDiv (Num a) (Num b) =
     (if b = 0 then (if a = 0 then NaN else signedInf (0 < a)) else Num (a / b))"
| "jsDiv NaN _ = NaN"
| "jsDiv _ NaN = NaN"
| "jsDiv (Num a) _ = Num 0"
| "jsDiv PosInf (Num b) = signedInf (0 \<le> b)"
| "jsDiv NegInf (Num b) = signedInf (b < 0)"
| "jsDiv _ _ = NaN"

fun jsLess :: "number \<Rightarrow> number \<Rightarrow> bool" where
  "jsLess (Num a) (Num b) = (a < b)"
| "jsLess NaN _ = False"
| "jsLess _ NaN = False"
| "jsLess NegInf b = (b \<noteq> NegInf)"
| "jsLess a PosInf = (a \<noteq> PosInf)"
| "jsLess _ _ = False"

text \<open>\<open>Math.max\<close> and \<open>Math.abs\<close>\<close>

definition mathMax :: "number \<Rightarrow> number \<Rightarrow> number" where
  "mathMax a b = (if a = NaN \<or> b = NaN then NaN else if jsLess a b then b else a)"

fun mathAbs :: "number \<Rightarrow> number" where
  "mathAbs NaN = NaN"
| "mathAbs PosInf = PosInf"
| "mathAbs NegInf = PosInf"
| "mathAbs (Num a) = Num \<bar>a\<bar>"

subsection \<open>Relevancy of a candidate: wordRelevancy\<close>

definition normalizeDifference :: "number \<Rightarrow> number \<Rightarrow> number" where
  "normalizeDifference a b =
     (let max = mathMax a b in jsDiv (jsSub max (mathAbs (jsSub a b))) max)"

text \<open>
  The truthiness of an optional string, as in \<open>if (title)\<close>: a title that is missing or
  empty is not scored.
\<close>

definition truthy :: "string option \<Rightarrow> bool" where
  "truthy title = (case title of None \<Rightarrow> False | Some t \<Rightarrow> t \<noteq> [])"

text \<open>
  The loop over the query terms, carrying \<open>(urlScore, urlCount, titleScore, titleCount)\<close>.
  The sums are sums of integers and are kept exact.
\<close>

fun scoreTerms ::
  "host \<Rightarrow> RegexpCache \<Rightarrow> string list \<Rightarrow> string \<Rightarrow> string option \<Rightarrow> int \<times> int \<times> int \<times> int
     \<Rightarrow> error + ((int \<times> int \<times> int \<times> int) \<times> RegexpCache)"
where
  "scoreTerms h this [] url title totals = Inr (totals, this)"
| "scoreTerms h this (term # queryTerms) url title (urlScore, urlCount, titleScore, titleCount) =
     (case scoreTerm h this term url of
        Inl e \<Rightarrow> Inl e
      | Inr ((s, c), this1) \<Rightarrow>
          if truthy title then
            (case scoreTerm h this1 term (the title) of
               Inl e \<Rightarrow> Inl e
             | Inr ((s', c'), this2) \<Rightarrow>
                 scoreTerms h this2 queryTerms url title
                   (urlScore + s, urlCount + c, titleScore + s', titleCount + c'))
          else scoreTerms h this1 queryTerms url title
                 (urlScore + s, urlCount + c, titleScore, titleCount))"

definition numOfInt :: "int \<Rightarrow> number" where
  "numOfInt i = Num (of_int i)"

text \<open>The normalisation of one accumulated score.\<close>

definition normalizedScore :: "int \<Rightarrow> int \<Rightarrow> number \<Rightarrow> nat \<Rightarrow> number" where
  "normalizedScore score count maximumPossibleScore len =
     jsMul (jsDiv (numOfInt score) maximumPossibleScore)
           (normalizeDifference (numOfInt count) (numOfInt (int len)))"

text \<open>The two scores after normalisation and after the title default.\<close>

definition fieldScores ::
  "int \<times> int \<times> int \<times> int \<Rightarrow> nat \<Rightarrow> string \<Rightarrow> string option \<Rightarrow> number \<times> number" where
  "fieldScores totals n url title =
     (case totals of (urlScore, urlCount, titleScore, titleCount) \<Rightarrow>
        let maximumPossibleScore = numOfInt (maximumScore * int n);
            urlScore = normalizedScore urlScore urlCount maximumPossibleScore (length url);
            titleScore =
              (if truthy title
               then normalizedScore titleScore titleCount maximumPossibleScore (length (the title))
               else urlScore)
        in (urlScore, titleScore))"

text \<open>The preference for the title, and the average.\<close>

definition combineScores :: "number \<Rightarrow> number \<Rightarrow> number" where
  "combineScores urlScore titleScore =
     (let urlScore = (if jsLess urlScore titleScore then titleScore else urlScore)
      in jsDiv (jsAdd urlScore titleScore) (Num 2))"

definition wordRelevancy ::
  "host \<Rightarrow> RegexpCache \<Rightarrow> string list \<Rightarrow> string \<Rightarrow> string option \<Rightarrow> error + (number \<times> RegexpCache)"
where
  "wordRelevancy h this queryTerms url title =
     (case scoreTerms h this queryTerms url title (0, 0, 0, 0) of
        Inl e \<Rightarrow> Inl e
      | Inr (totals, this') \<Rightarrow>
          (case fieldScores totals (length queryTerms) url title of
             (urlScore, titleScore) \<Rightarrow> Inr (combineScores urlScore titleScore, this')))"

subsection \<open>Recency of a candidate: recencyScore\<close>

definition oneMonthAgo :: rat where
  "oneMonthAgo = 1000 * 60 * 60 * 24 * 30"

text \<open>\<open>now\<close> is the value of the clock; both times are finite numbers of milliseconds.\<close>

definition recencyScore :: "rat \<Rightarrow> rat \<Rightarrow> rat" where
  "recencyScore now lastAccessedTime =
     (let recency = now - lastAccessedTime;
          recencyDifference = max 0 (oneMonthAgo - recency) / oneMonthAgo;
          recencyScore = recencyDifference * recencyDifference * recencyDifference
      in recencyScore * recencyCalibrator)"

section \<open>Notions used to state the properties\<close>

subsection \<open>Cache states\<close>

text \<open>The cache as \<open>get\<close> has it after its first statements: initialised if it was not.\<close>

definition readied :: "RegexpCache \<Rightarrow> RegexpCache" where
  "readied this = (if \<not> initialized this then init this else this)"

text \<open>
  Object identities are handed out in allocation order, so in every state the program can
  reach the cached objects carry identities below \<open>allocated\<close>, and objects cached under
  different keys are different objects.
\<close>

definition identsFresh :: "RegexpCache \<Rightarrow> bool" where
  "identsFresh this =
     ((\<forall>k r. cache this k = Some r \<longrightarrow> ident r < allocated this) \<and>
      (\<forall>k k' r r'. cache this k = Some r \<longrightarrow> cache this k' = Some r' \<longrightarrow>
         ident r = ident r' \<longrightarrow> k = k'))"

text \<open>
  A cache is smartcase when every cached object is the one its key compiles to and is
  case-insensitive exactly if the key has no upper-case letter. The empty cache is, and a
  call of \<open>get\<close> whose prefix and suffix have no upper-case letter keeps it so; the module
  itself only uses the affix \<open>\b\<close>.
\<close>

definition smartcaseCache :: "RegexpCache \<Rightarrow> bool" where
  "smartcaseCache this =
     (\<forall>k r. cache this k = Some r \<longrightarrow>
        source r = k \<and> ignoreCase r = (\<not> hasUpperCase k) \<and>
        (\<forall>ns. parseRegexp [] [] None k = Parsed ns \<longrightarrow>
           matcher r = nodesMatcher (ignoreCase r) ns))"

subsection \<open>Occurrences of a term in a string\<close>

text \<open>
  The term occurs at index \<open>i\<close> of the string when the string continues from \<open>i\<close> with the
  characters of the term, compared exactly if the term has an upper-case letter and up to
  letter case otherwise (smartcase).
\<close>

definition occursAt :: "string \<Rightarrow> string \<Rightarrow> nat \<Rightarrow> bool" where
  "occursAt term string i =
     (i + length term \<le> length string \<and>
      list_all2 (charEq (\<not> hasUpperCase term)) term (take (length term) (drop i string)))"

text \<open>
  Index \<open>i\<close> is a word boundary of the string, in the sense of the assertion \<open>\b\<close>, when
  exactly one of the characters before and after it is a word character (a missing
  neighbour counts as a non-word character).
\<close>

definition wordBoundaryAt :: "string \<Rightarrow> nat \<Rightarrow> bool" where
  "wordBoundaryAt string i =
     ((0 < i \<and> isWordChar (string ! (i - 1))) \<noteq> (i < length string \<and> isWordChar (string ! i)))"

definition positions :: "string \<Rightarrow> nat list" where
  "positions string = [0..<Suc (length string)]"

definition occurs :: "string \<Rightarrow> string \<Rightarrow> bool" where
  "occurs term string = list_ex (occursAt term string) (positions string)"

definition occursAtWordStart :: "string \<Rightarrow> string \<Rightarrow> bool" where
  "occursAtWordStart term string =
     list_ex (\<lambda>i. occursAt term string i \<and> wordBoundaryAt string i) (positions string)"

definition occursAsWholeWord :: "string \<Rightarrow> string \<Rightarrow> bool" where
  "occursAsWholeWord term string =
     list_ex (\<lambda>i. occursAt term string i \<and> wordBoundaryAt string i \<and>
                   wordBoundaryAt string (i + length term)) (positions string)"

subsection \<open>The word boundary of the glossary\<close>

text \<open>
  The glossary of the specification words the notion differently: a word boundary is a
  position adjacent to a non-word character or to an edge of the string. The following
  three notions follow that wording; they serve to compare it with what the program
  computes.
\<close>

definition glossaryWordBoundaryAt :: "string \<Rightarrow> nat \<Rightarrow> bool" where
  "glossaryWordBoundaryAt string i =
     (i = 0 \<or> i = length string \<or>
      \<not> (isWordChar (string ! (i - 1)) \<and> isWordChar (string ! i)))"

definition glossaryWordStart :: "string \<Rightarrow> string \<Rightarrow> bool" where
  "glossaryWordStart term string =
     list_ex (\<lambda>i. occursAt term string i \<and> glossaryWordBoundaryAt string i) (positions string)"

definition glossaryWholeWord :: "string \<Rightarrow> string \<Rightarrow> bool" where
  "glossaryWholeWord term string =
     list_ex (\<lambda>i. occursAt term string i \<and> glossaryWordBoundaryAt string i \<and>
                   glossaryWordBoundaryAt string (i + length term)) (positions string)"

subsection \<open>Auxiliary notions of the proofs\<close>

text \<open>The character before the position \<open>j\<close> characters into \<open>rest\<close>.\<close>

definition prevAt :: "char option \<Rightarrow> string \<Rightarrow> nat \<Rightarrow> char option" where
  "prevAt prev rest j = (if j = 0 then prev else Some (rest ! (j - 1)))"

text \<open>\<open>rest\<close> starts with the characters of \<open>t\<close>.\<close>

definition literalAt :: "bool \<Rightarrow> string \<Rightarrow> string \<Rightarrow> bool" where
  "literalAt ic t rest =
     (length t \<le> length rest \<and> list_all2 (charEq ic) t (take (length t) rest))"

section \<open>Properties\<close>

subsection \<open>Numbers\<close>

lemma normalizeDifference_Num:
  assumes "0 \<le> a" "0 \<le> b" "0 < a \<or> 0 < b"
  shows "normalizeDifference (Num a) (Num b) = Num (min a b / max a b)"
proof (cases "a < b")
  case True
  then have "b \<noteq> 0" using assms by auto
  with True show ?thesis
    by (simp add: normalizeDifference_def mathMax_def jsSub_def Let_def min_def max_def)
next
  case False
  then have "a \<noteq> 0" using assms by auto
  with False show ?thesis
    by (simp add: normalizeDifference_def mathMax_def jsSub_def Let_def min_def max_def)
qed

text \<open>
  Claim C8 says that \<open>normalizeDifference\<close> is well defined on all non-negative integers and
  is 1 when count and length are both 0. The code divides 0 by 0 there: the result is NaN.
  (On every other pair of non-negative numbers it is the quotient of the smaller by the
  larger, see \<open>normalizeDifference_Num\<close>.)
\<close>

theorem normalizeDifference_zero_zero:
  "normalizeDifference (numOfInt 0) (numOfInt 0) = NaN"
  by (simp add: normalizeDifference_def mathMax_def jsSub_def numOfInt_def)

subsection \<open>recencyScore\<close>

lemma recencyScore_cube:
  "recencyScore now t = (max 0 (oneMonthAgo - (now - t)) / oneMonthAgo) ^ 3 * recencyCalibrator"
  by (simp add: recencyScore_def Let_def power3_eq_cube)

lemma oneMonthAgo_pos: "0 < oneMonthAgo"
  by (simp add: oneMonthAgo_def)

lemma recencyScore_nonneg: "0 \<le> recencyScore now t"
  using oneMonthAgo_pos by (simp add: recencyScore_cube recencyCalibrator_def)

text \<open>A later access never scores lower: the score does not increase with age.\<close>

lemma recencyScore_mono:
  assumes "t \<le> t'"
  shows "recencyScore now t \<le> recencyScore now t'"
proof -
  let ?d = "\<lambda>x. max 0 (oneMonthAgo - (now - x)) / oneMonthAgo"
  have "?d t \<le> ?d t'"
    using assms oneMonthAgo_pos by (intro divide_right_mono) auto
  moreover have "0 \<le> ?d t"
    using oneMonthAgo_pos by simp
  ultimately have "?d t ^ 3 \<le> ?d t' ^ 3"
    by (rule power_mono)
  then show ?thesis
    by (simp add: recencyScore_cube recencyCalibrator_def)
qed

lemma recencyScore_now: "recencyScore now now = recencyCalibrator"
  using oneMonthAgo_pos by (simp add: recencyScore_cube)

lemma recencyScore_old: "oneMonthAgo \<le> now - t \<Longrightarrow> recencyScore now t = 0"
  by (simp add: recencyScore_cube max_def)

lemma recencyScore_past_le:
  assumes "t \<le> now"
  shows "recencyScore now t \<le> recencyCalibrator"
  using recencyScore_mono [OF assms, of now] by (simp add: recencyScore_now)

text \<open>
  Claim C4 says that for every timestamp the ratio is clamped to [0,1] and the score lies in
  [0, recencyCalibrator]. The code clamps the ratio from below only: for an access time one
  window after the clock the ratio is 2 and the score is 16/3. (The formula, the value at
  age 0, the value 0 from the window on, the monotonicity, and the upper bound for access
  times not after the clock are the lemmas above.)
\<close>

theorem recencyScore_future:
  "recencyScore 0 oneMonthAgo = 16 / 3 \<and> \<not> recencyScore 0 oneMonthAgo \<le> recencyCalibrator"
  by (simp add: recencyScore_def Let_def recencyCalibrator_def oneMonthAgo_def)

subsection \<open>The cache: identity of the returned objects\<close>

lemma newRegExp_ident: "newRegExp h i src flags = Inr r \<Longrightarrow> ident r = i"
  by (auto simp: newRegExp_def split: sum.splits)

lemma newRegExp_error: "newRegExp h i src flags = Inl e \<Longrightarrow> e = SyntaxError"
  by (auto simp: newRegExp_def compile_def split: sum.splits parsed.splits option.splits)

lemma readied_simps:
  "initialized (readied this)"
  "readied (readied this) = readied this"
  "initialized this \<Longrightarrow> readied this = this"
  by (simp_all add: readied_def init_def clear_def)

lemma cache_init: "cache (init this) k = None"
  by (simp add: init_def clear_def)

lemma getProperty_None:
  "getProperty own key = None \<longleftrightarrow> own key = None \<and> \<not> inheritedName key"
  by (simp add: getProperty_def split: option.split)

lemma getProperty_RegExp:
  "getProperty own key = Some (RegExpValue r) \<longleftrightarrow> own key = Some r"
  by (simp add: getProperty_def split: option.split)

lemma getProperty_Inherited:
  "getProperty own key = Some (InheritedValue k) \<longleftrightarrow>
     own key = None \<and> inheritedName key \<and> k = key"
  by (auto simp: getProperty_def split: option.split)

lemma getProperty_own: "own key = Some r \<Longrightarrow> getProperty own key = Some (RegExpValue r)"
  by (simp add: getProperty_def)

lemma get_unfold:
  "get h this string prefix suffix =
     (case getProperty (cache (readied this)) (regexpString string prefix suffix) of
        Some v \<Rightarrow> Inr (v, readied this)
      | None \<Rightarrow>
          (case newRegExp h (allocated (readied this)) (regexpString string prefix suffix)
                  (if hasUpperCase string then [] else ''i'') of
             Inl e \<Rightarrow> Inl e
           | Inr r \<Rightarrow>
               Inr (RegExpValue r,
                    (readied this)
                      \<lparr>cache := (cache (readied this))(regexpString string prefix suffix \<mapsto> r),
                       allocated := Suc (allocated (readied this))\<rparr>)))"
  unfolding get_def Let_def readied_def ..

lemma get_cases:
  assumes "get h this string prefix suffix = Inr (v, this1)"
  obtains (hit)
      "getProperty (cache (readied this)) (regexpString string prefix suffix) = Some v"
      "this1 = readied this"
  | (miss) r where
      "getProperty (cache (readied this)) (regexpString string prefix suffix) = None"
      "newRegExp h (allocated (readied this)) (regexpString string prefix suffix)
         (if hasUpperCase string then [] else ''i'') = Inr r"
      "v = RegExpValue r"
      "this1 = (readied this)
         \<lparr>cache := (cache (readied this))(regexpString string prefix suffix \<mapsto> r),
          allocated := Suc (allocated (readied this))\<rparr>"
proof -
  define this0 where "this0 = readied this"
  define key where "key = regexpString string prefix suffix"
  have g: "get h this string prefix suffix =
     (case getProperty (cache this0) key of
        Some v \<Rightarrow> Inr (v, this0)
      | None \<Rightarrow>
          (case newRegExp h (allocated this0) key (if hasUpperCase string then [] else ''i'') of
             Inl e \<Rightarrow> Inl e
           | Inr r \<Rightarrow> Inr (RegExpValue r, this0\<lparr>cache := (cache this0)(key \<mapsto> r),
                                                 allocated := Suc (allocated this0)\<rparr>)))"
    unfolding this0_def key_def by (rule get_unfold)
  show thesis
  proof (cases "getProperty (cache this0) key")
    case (Some v')
    with g assms have eq: "v' = v" "this1 = this0" by simp_all
    with Some show thesis
      by (intro hit) (simp_all add: key_def this0_def)
  next
    case None
    show thesis
    proof (cases "newRegExp h (allocated this0) key (if hasUpperCase string then [] else ''i'')")
      case (Inl e)
      with g None assms show thesis by simp
    next
      case (Inr r')
      with g None assms have "v = RegExpValue r'"
        "this1 = this0\<lparr>cache := (cache this0)(key \<mapsto> r'), allocated := Suc (allocated this0)\<rparr>"
        by simp_all
      with None Inr show thesis
        by (intro miss [of r']) (simp_all add: key_def this0_def)
    qed
  qed
qed

lemma get_error:
  assumes "get h this string prefix suffix = Inl e"
  shows "e = SyntaxError \<and> get h (readied this) string prefix suffix = Inl e"
proof -
  define this0 where "this0 = readied this"
  define key where "key = regexpString string prefix suffix"
  have g: "get h x string prefix suffix =
     (case getProperty (cache this0) key of
        Some v \<Rightarrow> Inr (v, this0)
      | None \<Rightarrow>
          (case newRegExp h (allocated this0) key (if hasUpperCase string then [] else ''i'') of
             Inl e \<Rightarrow> Inl e
           | Inr r \<Rightarrow> Inr (RegExpValue r, this0\<lparr>cache := (cache this0)(key \<mapsto> r),
                                                 allocated := Suc (allocated this0)\<rparr>)))"
    if "readied x = this0" for x
    unfolding that [symmetric] key_def by (rule get_unfold)
  have same: "get h this0 string prefix suffix = get h this string prefix suffix"
    by (simp only: g [of this0, OF readied_simps(2) [of this, folded this0_def]]
          g [of this, OF this0_def [symmetric]])
  show ?thesis
  proof (cases "getProperty (cache this0) key")
    case (Some v')
    with g [of this] assms show ?thesis by (simp add: this0_def)
  next
    case None
    show ?thesis
    proof (cases "newRegExp h (allocated this0) key (if hasUpperCase string then [] else ''i'')")
      case (Inl e')
      then have "e' = SyntaxError" by (rule newRegExp_error)
      moreover have "e' = e"
        using g [of this] None Inl assms by (simp add: this0_def)
      ultimately show ?thesis
        using same assms by (simp add: this0_def)
    next
      case (Inr r')
      with g [of this] None assms show ?thesis by (simp add: this0_def)
    qed
  qed
qed

lemma get_result_cached:
  assumes "get h this string prefix suffix = Inr (v, this1)"
  shows "initialized this1 \<and>
         getProperty (cache this1) (regexpString string prefix suffix) = Some v"
  using assms
proof (cases rule: get_cases)
  case hit
  then show ?thesis by (simp add: readied_simps)
next
  case (miss r)
  then show ?thesis
    by (simp add: readied_simps getProperty_own)
qed

lemma get_hit:
  assumes "initialized this"
    "getProperty (cache this) (regexpString string prefix suffix) = Some v"
  shows "get h this string prefix suffix = Inr (v, this)"
  using assms by (simp add: get_unfold readied_simps)

lemma get_keeps:
  assumes "get h this string prefix suffix = Inr (v, this1)"
    and "initialized this" "cache this k = Some r'"
  shows "cache this1 k = Some r'"
  using assms(1)
proof (cases rule: get_cases)
  case hit
  with assms(2,3) show ?thesis by (simp add: readied_simps)
next
  case (miss r)
  have r0: "readied this = this"
    using assms(2) by (simp add: readied_simps)
  have "cache this (regexpString string prefix suffix) = None"
    using miss(1) by (simp add: r0 getProperty_None)
  with assms(3) have "k \<noteq> regexpString string prefix suffix"
    by auto
  with assms(3) show ?thesis
    by (simp add: miss(4) r0)
qed

lemma identsFresh_new: "identsFresh newRegexpCache"
  by (simp add: identsFresh_def newRegexpCache_def)

lemma identsFresh_clear: "identsFresh (clear this)"
  by (simp add: identsFresh_def clear_def)

lemma identsFresh_init: "identsFresh (init this)"
  by (simp add: identsFresh_def clear_def init_def)

lemma identsFresh_readied: "identsFresh this \<Longrightarrow> identsFresh (readied this)"
  by (simp add: readied_def identsFresh_init)

lemma identsFresh_get:
  assumes "get h this string prefix suffix = Inr (v, this1)" "identsFresh this"
  shows "identsFresh this1"
  using assms(1)
proof (cases rule: get_cases)
  case hit
  with assms(2) show ?thesis by (simp add: identsFresh_readied)
next
  case (miss r)
  define key where "key = regexpString string prefix suffix"
  define this0 where "this0 = readied this"
  have f0: "identsFresh this0"
    using assms(2) by (simp add: this0_def identsFresh_readied)
  have ir: "ident r = allocated this0"
    using miss(2) unfolding this0_def by (rule newRegExp_ident)
  have lt: "ident x < allocated this0" if "cache this0 k = Some x" for k x
    using f0 that unfolding identsFresh_def by blast
  have inj: "k = k'"
    if "cache this0 k = Some x" "cache this0 k' = Some x'" "ident x = ident x'" for k k' x x'
    using f0 that unfolding identsFresh_def by blast
  have c1: "cache this1 k = (if k = key then Some r else cache this0 k)" for k
    by (simp add: miss(4) key_def this0_def)
  have a1: "allocated this1 = Suc (allocated this0)"
    by (simp add: miss(4) this0_def)
  have old: "cache this0 k = Some x \<and> ident x < allocated this0"
    if "cache this1 k = Some x" "k \<noteq> key" for k x
    using that lt by (simp add: c1)
  have new: "x = r" if "cache this1 key = Some x" for x
    using that by (simp add: c1)
  show ?thesis
    unfolding identsFresh_def
  proof (intro conjI allI impI)
    fix k x
    assume c: "cache this1 k = Some x"
    show "ident x < allocated this1"
    proof (cases "k = key")
      case True
      have "x = r"
        by (rule new) (use c True in simp)
      then show ?thesis
        by (simp add: ir a1)
    next
      case False
      have "ident x < allocated this0"
        using old [OF c False] by (rule conjunct2)
      then show ?thesis
        by (simp add: a1)
    qed
  next
    fix k k' x x'
    assume a: "cache this1 k = Some x" "cache this1 k' = Some x'" "ident x = ident x'"
    show "k = k'"
    proof (cases "k = key")
      case True
      show ?thesis
      proof (cases "k' = key")
        case True
        with \<open>k = key\<close> show ?thesis by simp
      next
        case False
        have "x = r"
          by (rule new) (use a(1) True in simp)
        then have "ident x = allocated this0"
          by (simp add: ir)
        moreover have "ident x' < allocated this0"
          using old [OF a(2) False] by (rule conjunct2)
        ultimately have False
          using a(3) by linarith
        then show ?thesis ..
      qed
    next
      case False
      show ?thesis
      proof (cases "k' = key")
        case True
        have "x' = r"
          by (rule new) (use a(2) True in simp)
        then have "ident x' = allocated this0"
          by (simp add: ir)
        moreover have "ident x < allocated this0"
          using old [OF a(1) False] by (rule conjunct2)
        ultimately have False
          using a(3) by linarith
        then show ?thesis ..
      next
        case k': False
        have "cache this0 k = Some x"
          using old [OF a(1) False] by (rule conjunct1)
        moreover have "cache this0 k' = Some x'"
          using old [OF a(2) k'] by (rule conjunct1)
        ultimately show ?thesis
          using a(3) by (rule inj)
      qed
    qed
  qed
qed

lemma identsFresh_distinct:
  assumes "identsFresh this" "cache this k = Some r" "cache this k' = Some r'" "k \<noteq> k'"
  shows "ident r \<noteq> ident r'"
  using assms unfolding identsFresh_def by blast

subsection \<open>Parsing the sources the cache builds\<close>

lemma isSpecial_iff:
  "isSpecial c \<longleftrightarrow> c \<in> set ''-[]/{}()*+?.^$|'' \<or> c = backslash"
  by (auto simp: isSpecial_def regexSpecialCharacters_def)

lemma not_special_b: "\<not> isSpecial (CHR ''b'')"
  by (simp add: isSpecial_iff backslash_def)

lemma special_not_b: "isSpecial c \<Longrightarrow> c \<noteq> CHR ''b''"
  using not_special_b by auto

lemma parse_plain:
  assumes "\<not> isSpecial c"
  shows "parseRegexp acc stack None (c # cs) = parseRegexp (Chr c # acc) stack None cs"
  using assms by (auto simp: isSpecial_iff)

lemma parse_escaped:
  assumes "isSpecial c"
  shows "parseRegexp acc stack None (backslash # c # cs)
           = parseRegexp (Chr c # acc) stack None cs"
  using assms special_not_b [OF assms] by simp

lemma parse_escape:
  "parseRegexp acc stack None (escapeRegexSpecialCharacters t @ rest) =
     parseRegexp (rev (map Chr t) @ acc) stack None rest"
proof (induction t arbitrary: acc)
  case Nil
  show ?case by simp
next
  case (Cons c t)
  show ?case
  proof (cases "isSpecial c")
    case True
    then show ?thesis
      by (simp add: parse_escaped Cons.IH del: parseRegexp.simps)
  next
    case False
    then show ?thesis
      by (simp add: parse_plain Cons.IH del: parseRegexp.simps)
  qed
qed

lemma parse_wordBoundary:
  "parseRegexp acc stack None (wordBoundaryAffix @ rest)
     = parseRegexp (WordBoundary # acc) stack None rest"
  by (simp add: wordBoundaryAffix_def)

lemma parse_anywhere:
  "parseRegexp [] [] None (escapeRegexSpecialCharacters t) = Parsed (map Chr t)"
  using parse_escape [of "[]" "[]" t "[]"] by simp

lemma parse_startOfWord:
  "parseRegexp [] [] None (wordBoundaryAffix @ escapeRegexSpecialCharacters t)
     = Parsed (WordBoundary # map Chr t)"
  using parse_escape [of "[WordBoundary]" "[]" t "[]"] by (simp add: parse_wordBoundary)

lemma parse_wholeWord:
  "parseRegexp [] [] None
     (wordBoundaryAffix @ escapeRegexSpecialCharacters t @ wordBoundaryAffix)
     = Parsed (WordBoundary # map Chr t @ [WordBoundary])"
proof -
  have "parseRegexp [] [] None
          (wordBoundaryAffix @ escapeRegexSpecialCharacters t @ wordBoundaryAffix)
      = parseRegexp (rev (map Chr t) @ [WordBoundary]) [] None (wordBoundaryAffix @ [])"
    by (simp add: parse_wordBoundary parse_escape)
  also have "\<dots> = Parsed (WordBoundary # map Chr t @ [WordBoundary])"
    by (simp only: parse_wordBoundary) simp
  finally show ?thesis .
qed

lemma parse_group:
  "parseRegexp [] [] None (''('' @ escapeRegexSpecialCharacters t @ '')'')
     = Parsed [Group (map Chr t)]"
proof -
  have "parseRegexp [] [] None (''('' @ escapeRegexSpecialCharacters t @ '')'')
      = parseRegexp [] [[]] None (escapeRegexSpecialCharacters t @ '')'')"
    by (simp add: backslash_def)
  also have "\<dots> = parseRegexp (rev (map Chr t) @ []) [[]] None '')''"
    by (rule parse_escape)
  also have "\<dots> = Parsed [Group (map Chr t)]"
    by (simp add: backslash_def)
  finally show ?thesis .
qed

lemma parse_unclosed:
  "parseRegexp [] [] None (''('' @ escapeRegexSpecialCharacters t) = Malformed"
proof -
  have "parseRegexp [] [] None (''('' @ escapeRegexSpecialCharacters t)
      = parseRegexp [] [[]] None (escapeRegexSpecialCharacters t @ [])"
    by (simp add: backslash_def)
  also have "\<dots> = parseRegexp (rev (map Chr t) @ []) [[]] None []"
    by (rule parse_escape)
  also have "\<dots> = Malformed"
    by simp
  finally show ?thesis .
qed

lemma regexpString_simps:
  "regexpString t None None = escapeRegexSpecialCharacters t"
  "regexpString t (Some p) None = p @ escapeRegexSpecialCharacters t"
  "regexpString t None (Some q) = escapeRegexSpecialCharacters t @ q"
  "regexpString t (Some p) (Some q) = p @ escapeRegexSpecialCharacters t @ q"
  by (simp_all add: regexpString_def Let_def)


lemma compile_parsed:
  assumes "parseRegexp [] [] None src = Parsed ns"
  shows "compile h src ic = Inr (nodesMatcher ic ns)"
  using assms by (simp add: compile_def)

lemma compile_malformed:
  assumes "parseRegexp [] [] None src = Malformed"
  shows "compile h src ic = Inl SyntaxError"
  using assms by (simp add: compile_def)

lemma get_total:
  assumes "parseRegexp [] [] None (regexpString string prefix suffix) = Parsed ns"
  shows "\<exists>v this1. get h this string prefix suffix = Inr (v, this1)"
  using assms by (simp add: get_unfold newRegExp_def compile_def split: option.split)

lemma get_anywhere_total: "\<exists>v this1. get h this string None None = Inr (v, this1)"
  by (rule get_total [of _ _ _ "map Chr string"]) (simp add: regexpString_simps parse_anywhere)

lemma get_group_total:
  "\<exists>v this1. get h this string (Some ''('') (Some '')'') = Inr (v, this1)"
  by (rule get_total [of _ _ _ "[Group (map Chr string)]"])
     (simp only: regexpString_simps parse_group)

lemma get_again:
  assumes "get h this string prefix suffix = Inr (v, this1)"
  shows "get h this1 string prefix suffix = Inr (v, this1)"
  using get_result_cached [OF assms] by (simp add: get_hit)

lemma get_colliding:
  assumes "get h this string prefix suffix = Inr (v, this1)"
    and "regexpString string' prefix' suffix' = regexpString string prefix suffix"
  shows "get h this1 string' prefix' suffix' = Inr (v, this1)"
  using get_result_cached [OF assms(1)] assms(2) by (simp add: get_hit)

lemma sameObject_refl: "sameObject v v"
  by (cases v) simp_all

text \<open>Values read under different keys are different objects.\<close>

lemma getProperty_distinct:
  assumes "identsFresh this"
    and "getProperty (cache this) k = Some v" "getProperty (cache this) k' = Some v'"
    and "k \<noteq> k'"
  shows "\<not> sameObject v v'"
proof (cases v)
  case v: (RegExpValue r)
  show ?thesis
  proof (cases v')
    case (RegExpValue r')
    have "cache this k = Some r" "cache this k' = Some r'"
      using assms(2,3) by (simp_all add: v RegExpValue getProperty_RegExp)
    with assms(1,4) have "ident r \<noteq> ident r'"
      by (intro identsFresh_distinct)
    then show ?thesis by (simp add: v RegExpValue)
  next
    case (InheritedValue x)
    then show ?thesis by (simp add: v)
  qed
next
  case v: (InheritedValue x)
  show ?thesis
  proof (cases v')
    case (RegExpValue r')
    then show ?thesis by (simp add: v)
  next
    case (InheritedValue x')
    have "x = k" "x' = k'"
      using assms(2,3) by (simp_all add: v InheritedValue getProperty_Inherited)
    with assms(4) show ?thesis by (simp add: v InheritedValue)
  qed
qed

lemma get_keeps_property:
  assumes "get h this string prefix suffix = Inr (v, this1)"
    and "initialized this" "getProperty (cache this) k = Some v'"
  shows "getProperty (cache this1) k = Some v'"
proof (cases v')
  case (RegExpValue r')
  then have "cache this k = Some r'"
    using assms(3) by (simp add: getProperty_RegExp)
  with assms(1,2) have "cache this1 k = Some r'"
    by (rule get_keeps)
  then show ?thesis
    by (simp add: RegExpValue getProperty_own)
next
  case (InheritedValue x)
  then have i: "cache this k = None" "inheritedName k" "x = k"
    using assms(3) by (simp_all add: getProperty_Inherited)
  from assms(1) show ?thesis
  proof (cases rule: get_cases)
    case hit
    with assms(2,3) show ?thesis by (simp add: readied_simps)
  next
    case (miss r)
    have r0: "readied this = this"
      using assms(2) by (simp add: readied_simps)
    have "\<not> inheritedName (regexpString string prefix suffix)"
      using miss(1) by (simp add: getProperty_None)
    with i(2) have "k \<noteq> regexpString string prefix suffix"
      by auto
    with i show ?thesis
      by (simp add: miss(4) r0 InheritedValue getProperty_def)
  qed
qed

lemma get_other_key:
  assumes "identsFresh this"
    and g1: "get h this string prefix suffix = Inr (v1, this1)"
    and g2: "get h this1 string' prefix' suffix' = Inr (v2, this2)"
    and ne: "regexpString string prefix suffix \<noteq> regexpString string' prefix' suffix'"
  shows "\<not> sameObject v1 v2"
proof -
  have c1: "initialized this1"
    "getProperty (cache this1) (regexpString string prefix suffix) = Some v1"
    using get_result_cached [OF g1] by simp_all
  have "getProperty (cache this2) (regexpString string prefix suffix) = Some v1"
    using g2 c1 by (rule get_keeps_property)
  moreover have "getProperty (cache this2) (regexpString string' prefix' suffix') = Some v2"
    using get_result_cached [OF g2] by simp
  moreover have "identsFresh this2"
    using g2 identsFresh_get [OF g1 assms(1)] by (rule identsFresh_get)
  ultimately show ?thesis
    using ne by (intro getProperty_distinct [of this2])
qed

lemma sameObject_sym: "sameObject v v' = sameObject v' v"
  by (cases v; cases v') auto

lemma regexpString_affix_ne:
  assumes "truthy p \<or> truthy q"
  shows "regexpString x p q \<noteq> regexpString x None None"
proof
  assume e: "regexpString x p q = regexpString x None None"
  have "length (regexpString x p q) =
      length (case p of None \<Rightarrow> [] | Some a \<Rightarrow> a) + length (escapeRegexSpecialCharacters x)
        + length (case q of None \<Rightarrow> [] | Some a \<Rightarrow> a)"
    by (simp add: regexpString_def Let_def)
  moreover have "0 < length (case p of None \<Rightarrow> [] | Some a \<Rightarrow> a)
      + length (case q of None \<Rightarrow> [] | Some a \<Rightarrow> a)"
    using assms by (auto simp: truthy_def split: option.splits)
  moreover have "length (regexpString x None None) = length (escapeRegexSpecialCharacters x)"
    by (simp only: regexpString_simps)
  ultimately show False
    using e by simp
qed


text \<open>
  A source the theory does not parse is compiled by the host: \<open>get("a", "^")\<close>, whose key
  is \<open>^a\<close>, returns the expression the host makes of it.
\<close>

lemma get_outside_fragment:
  assumes "getProperty (cache (readied this)) (regexpString string prefix suffix) = None"
    and "parseRegexp [] [] None (regexpString string prefix suffix) = OutsideFragment"
    and "h (regexpString string prefix suffix) (\<not> hasUpperCase string) = Some m"
  shows "\<exists>this1. get h this string prefix suffix =
     Inr (RegExpValue \<lparr>ident = allocated (readied this),
                         source = regexpString string prefix suffix,
                         ignoreCase = (\<not> hasUpperCase string), matcher = m\<rparr>, this1)"
proof (cases "hasUpperCase string")
  case True
  with assms show ?thesis
    by (simp add: get_unfold newRegExp_def compile_def)
next
  case False
  with assms show ?thesis
    by (simp add: get_unfold newRegExp_def compile_def)
qed

lemma parse_anchor: "parseRegexp [] [] None (regexpString ''a'' (Some ''^'') None) = OutsideFragment"
  by (simp add: regexpString_simps isSpecial_iff backslash_def)

lemma get_raises:
  assumes "getProperty (cache (readied this)) (regexpString string prefix suffix) = None"
    and "\<And>ic. compile h (regexpString string prefix suffix) ic = Inl e"
  shows "get h this string prefix suffix = Inl e"
  by (simp add: get_unfold assms newRegExp_def)

lemma cache_readied_new: "cache (readied newRegexpCache) k = None"
  by (simp add: readied_def newRegexpCache_def cache_init)

lemma get_unclosed_raises: "get h newRegexpCache string (Some ''('') None = Inl SyntaxError"
proof (rule get_raises)
  have "\<not> inheritedName (''('' @ escapeRegexSpecialCharacters string)"
    by (simp add: inheritedName_def inheritedNames_def)
  then show "getProperty (cache (readied newRegexpCache))
      (regexpString string (Some ''('') None) = None"
    by (simp add: getProperty_None cache_readied_new regexpString_simps)
next
  fix ic
  show "compile h (regexpString string (Some ''('') None) ic = Inl SyntaxError"
    unfolding regexpString_simps using parse_unclosed by (rule compile_malformed)
qed

text \<open>
  Claim C7: two calls of \<open>get\<close> with the same term, prefix and suffix return the identical
  object, and a call with a non-empty prefix or suffix returns an object different from the
  one returned for the bare term. In detail: the value a call returns is the one read from
  the cache object under the key afterwards, and the same call made again returns that very
  object and leaves the cache as it is; the value was either read from the cache object,
  which the call then only initialises, or it is a new expression, allocated with the next
  identity and stored under the key; a call that raises raises again when repeated; the
  values returned for a term with and without a non-empty affix are different objects, in
  either order of the calls, in particular for the prefix \<open>(\<close> and suffix \<open>)\<close>, for which
  both calls always return.
\<close>

theorem get_identical_instance:
  "(get h this string prefix suffix = Inr (v, this1) \<longrightarrow>
      getProperty (cache this1) (regexpString string prefix suffix) = Some v \<and>
      (\<exists>v'. get h this1 string prefix suffix = Inr (v', this1) \<and> sameObject v v' \<and> v' = v))
   \<and> (get h this string prefix suffix = Inr (v, this1) \<longrightarrow>
        (getProperty (cache (readied this)) (regexpString string prefix suffix) = Some v \<and>
         this1 = readied this)
        \<or> (getProperty (cache (readied this)) (regexpString string prefix suffix) = None \<and>
            (\<exists>r. v = RegExpValue r \<and> ident r = allocated (readied this) \<and>
                 this1 = (readied this)
                   \<lparr>cache := (cache (readied this))(regexpString string prefix suffix \<mapsto> r),
                    allocated := Suc (allocated (readied this))\<rparr>)))
   \<and> (get h this string prefix suffix = Inl e \<longrightarrow>
        e = SyntaxError \<and> get h (readied this) string prefix suffix = Inl e)
   \<and> (identsFresh this \<longrightarrow> truthy p \<or> truthy q \<longrightarrow>
        get h this x p q = Inr (v1, thisA) \<longrightarrow>
        get h thisA x None None = Inr (v2, thisB) \<longrightarrow> \<not> sameObject v1 v2)
   \<and> (identsFresh this \<longrightarrow> truthy p \<or> truthy q \<longrightarrow>
        get h this x None None = Inr (v2, thisA) \<longrightarrow>
        get h thisA x p q = Inr (v1, thisB) \<longrightarrow> \<not> sameObject v1 v2)
   \<and> (identsFresh this \<longrightarrow>
        (\<exists>v1 thisA v2 thisB.
           get h this x (Some ''('') (Some '')'') = Inr (v1, thisA) \<and>
           get h thisA x None None = Inr (v2, thisB) \<and> \<not> sameObject v1 v2))"
proof (intro conjI impI)
  assume g: "get h this string prefix suffix = Inr (v, this1)"
  show "getProperty (cache this1) (regexpString string prefix suffix) = Some v"
    using get_result_cached [OF g] by (rule conjunct2)
  have "get h this1 string prefix suffix = Inr (v, this1)"
    using g by (rule get_again)
  then show "\<exists>v'. get h this1 string prefix suffix = Inr (v', this1) \<and> sameObject v v' \<and> v' = v"
    by (simp add: sameObject_refl)
  from g show
    "(getProperty (cache (readied this)) (regexpString string prefix suffix) = Some v \<and>
      this1 = readied this)
     \<or> (getProperty (cache (readied this)) (regexpString string prefix suffix) = None \<and>
         (\<exists>r. v = RegExpValue r \<and> ident r = allocated (readied this) \<and>
              this1 = (readied this)
                \<lparr>cache := (cache (readied this))(regexpString string prefix suffix \<mapsto> r),
                 allocated := Suc (allocated (readied this))\<rparr>))"
  proof (cases rule: get_cases)
    case hit
    then show ?thesis by blast
  next
    case (miss r)
    have "ident r = allocated (readied this)"
      using miss(2) by (rule newRegExp_ident)
    with miss(1,3,4) show ?thesis by blast
  qed
next
  assume g: "get h this string prefix suffix = Inl e"
  show "e = SyntaxError"
    using get_error [OF g] by (rule conjunct1)
  show "get h (readied this) string prefix suffix = Inl e"
    using get_error [OF g] by (rule conjunct2)
next
  assume "identsFresh this" "truthy p \<or> truthy q"
    "get h this x p q = Inr (v1, thisA)" "get h thisA x None None = Inr (v2, thisB)"
  then show "\<not> sameObject v1 v2"
    using regexpString_affix_ne [of p q x] by (intro get_other_key)
next
  assume a: "identsFresh this" "truthy p \<or> truthy q"
    "get h this x None None = Inr (v2, thisA)" "get h thisA x p q = Inr (v1, thisB)"
  have "regexpString x None None \<noteq> regexpString x p q"
    using regexpString_affix_ne [OF a(2), of x] by (rule not_sym)
  with a(1,3,4) have "\<not> sameObject v2 v1"
    by (intro get_other_key)
  then show "\<not> sameObject v1 v2"
    by (simp add: sameObject_sym [of v1 v2])
next
  assume f: "identsFresh this"
  obtain v1 thisA where g1: "get h this x (Some ''('') (Some '')'') = Inr (v1, thisA)"
    using get_group_total by blast
  obtain v2 thisB where g2: "get h thisA x None None = Inr (v2, thisB)"
    using get_anywhere_total by blast
  have "regexpString x (Some ''('') (Some '')'') \<noteq> regexpString x None None"
    by (rule regexpString_affix_ne) (simp add: truthy_def)
  with f g1 g2 have "\<not> sameObject v1 v2"
    by (intro get_other_key)
  with g1 g2 show "\<exists>v1 thisA v2 thisB.
           get h this x (Some ''('') (Some '')'') = Inr (v1, thisA) \<and>
           get h thisA x None None = Inr (v2, thisB) \<and> \<not> sameObject v1 v2"
    by blast
qed

theorem get_identical_instance_witness:
  "\<forall>h. identsFresh newRegexpCache \<and> truthy (Some ''('')
     \<and> (\<exists>v this1. get h newRegexpCache ''this'' None None = Inr (v, this1) \<and>
           getProperty (cache this1) (regexpString ''this'' None None) = Some v \<and>
           get h this1 ''this'' None None = Inr (v, this1) \<and> sameObject v v \<and>
           (\<exists>r. v = RegExpValue r \<and> ident r = allocated (readied newRegexpCache)))
     \<and> get h newRegexpCache ''this'' (Some ''('') None = Inl SyntaxError
     \<and> get h (readied newRegexpCache) ''this'' (Some ''('') None = Inl SyntaxError
     \<and> (\<exists>v1 thisA v2 thisB.
           get h newRegexpCache ''this'' (Some ''('') (Some '')'') = Inr (v1, thisA) \<and>
           get h thisA ''this'' None None = Inr (v2, thisB) \<and> \<not> sameObject v1 v2)
     \<and> (\<exists>v2 thisA v1 thisB.
           get h newRegexpCache ''this'' None None = Inr (v2, thisA) \<and>
           get h thisA ''this'' (Some ''('') (Some '')'') = Inr (v1, thisB) \<and>
           \<not> sameObject v1 v2)"
proof
  fix h
  have tr: "truthy (Some ''('')"
    by (simp add: truthy_def)
  have k: "regexpString ''this'' None None = ''this''"
    by (simp add: regexpString_simps isSpecial_iff backslash_def)
  have none: "getProperty (cache (readied newRegexpCache)) (regexpString ''this'' None None)
      = None"
    by (simp add: k getProperty_None cache_readied_new inheritedName_def inheritedNames_def)
  obtain v this1 where g: "get h newRegexpCache ''this'' None None = Inr (v, this1)"
    using get_anywhere_total by blast
  obtain v1 thisB where g': "get h this1 ''this'' (Some ''('') (Some '')'') = Inr (v1, thisB)"
    using get_group_total by blast
  have e: "get h newRegexpCache ''this'' (Some ''('') None = Inl SyntaxError"
    by (rule get_unclosed_raises)
  note t = get_identical_instance [where h = h and this = newRegexpCache
      and string = "''this''" and prefix = None and suffix = None and v = v and ?this1.0 = this1
      and p = "Some ''(''" and q = "Some '')''" and x = "''this''" and ?v1.0 = v1 and ?v2.0 = v
      and thisA = this1 and thisB = thisB]
  note t1 = t [THEN conjunct1, rule_format, OF g]
  note t2 = t [THEN conjunct2, THEN conjunct1, rule_format, OF g]
  note t5 = t [THEN conjunct2, THEN conjunct2, THEN conjunct2, THEN conjunct2,
      THEN conjunct1, rule_format, OF identsFresh_new _ g g']
  note t6 = t [THEN conjunct2, THEN conjunct2, THEN conjunct2, THEN conjunct2,
      THEN conjunct2, rule_format, OF identsFresh_new]
  from t1 have a1: "getProperty (cache this1) (regexpString ''this'' None None) = Some v"
    by (rule conjunct1)
  from t1 have a3: "get h this1 ''this'' None None = Inr (v, this1)" "sameObject v v"
    by auto
  from t2 none have a4: "\<exists>r. v = RegExpValue r \<and> ident r = allocated (readied newRegexpCache)"
    by auto
  note u = get_identical_instance [where h = h and this = newRegexpCache
      and string = "''this''" and prefix = "Some ''(''" and suffix = None and e = SyntaxError]
  from u [THEN conjunct2, THEN conjunct2, THEN conjunct1, rule_format, OF e]
  have b: "get h (readied newRegexpCache) ''this'' (Some ''('') None = Inl SyntaxError"
    by (rule conjunct2)
  note c = t6
  from t5 tr have "\<not> sameObject v1 v"
    by simp
  with g g' have d: "\<exists>v2 thisA v1 thisB.
           get h newRegexpCache ''this'' None None = Inr (v2, thisA) \<and>
           get h thisA ''this'' (Some ''('') (Some '')'') = Inr (v1, thisB) \<and>
           \<not> sameObject v1 v2"
    by blast
  from g a1 a3 a4 have a: "\<exists>v this1. get h newRegexpCache ''this'' None None = Inr (v, this1) \<and>
           getProperty (cache this1) (regexpString ''this'' None None) = Some v \<and>
           get h this1 ''this'' None None = Inr (v, this1) \<and> sameObject v v \<and>
           (\<exists>r. v = RegExpValue r \<and> ident r = allocated (readied newRegexpCache))"
    by blast
  from identsFresh_new tr a e b c d
  show "identsFresh newRegexpCache \<and> truthy (Some ''('')
     \<and> (\<exists>v this1. get h newRegexpCache ''this'' None None = Inr (v, this1) \<and>
           getProperty (cache this1) (regexpString ''this'' None None) = Some v \<and>
           get h this1 ''this'' None None = Inr (v, this1) \<and> sameObject v v \<and>
           (\<exists>r. v = RegExpValue r \<and> ident r = allocated (readied newRegexpCache)))
     \<and> get h newRegexpCache ''this'' (Some ''('') None = Inl SyntaxError
     \<and> get h (readied newRegexpCache) ''this'' (Some ''('') None = Inl SyntaxError
     \<and> (\<exists>v1 thisA v2 thisB.
           get h newRegexpCache ''this'' (Some ''('') (Some '')'') = Inr (v1, thisA) \<and>
           get h thisA ''this'' None None = Inr (v2, thisB) \<and> \<not> sameObject v1 v2)
     \<and> (\<exists>v2 thisA v1 thisB.
           get h newRegexpCache ''this'' None None = Inr (v2, thisA) \<and>
           get h thisA ''this'' (Some ''('') (Some '')'') = Inr (v1, thisB) \<and>
           \<not> sameObject v1 v2)"
    by (intro conjI)
qed


lemma get_fresh:
  assumes "parseRegexp [] [] None (regexpString string prefix suffix) = Parsed ns"
    and "\<not> inheritedName (regexpString string prefix suffix)"
  shows "get h newRegexpCache string prefix suffix =
     Inr (RegExpValue
            \<lparr>ident = 0, source = regexpString string prefix suffix,
              ignoreCase = (\<not> hasUpperCase string),
              matcher = nodesMatcher (\<not> hasUpperCase string) ns\<rparr>,
          \<lparr>initialized = True,
           cache = [regexpString string prefix suffix \<mapsto>
                      \<lparr>ident = 0, source = regexpString string prefix suffix,
                        ignoreCase = (\<not> hasUpperCase string),
                        matcher = nodesMatcher (\<not> hasUpperCase string) ns\<rparr>],
           allocated = Suc 0\<rparr>)"
  using assms
  by (simp add: get_unfold readied_def newRegexpCache_def init_def clear_def newRegExp_def
        compile_def getProperty_def)



subsection \<open>Matching literal patterns\<close>

declare splitLoop.simps [simp del]

lemma literalAt_Nil [simp]: "literalAt ic [] rest"
  by (simp add: literalAt_def)

lemma literalAt_Cons:
  "literalAt ic (c # t) rest =
     (case rest of [] \<Rightarrow> False | x # xs \<Rightarrow> charEq ic c x \<and> literalAt ic t xs)"
  by (cases rest) (auto simp: literalAt_def)

lemma prevAt_0 [simp]: "prevAt prev rest 0 = prev"
  by (simp add: prevAt_def)

lemma prevAt_Suc [simp]: "prevAt prev (x # xs) (Suc j) = prevAt (Some x) xs j"
  by (cases j) (simp_all add: prevAt_def)

lemma matchNodes_literal:
  "matchNodes ic (map Chr t @ ns) prev rest =
     (if literalAt ic t rest
      then matchNodes ic ns (prevAt prev rest (length t)) (drop (length t) rest)
      else None)"
proof (induction t arbitrary: prev rest)
  case Nil
  show ?case by simp
next
  case (Cons c t)
  show ?case
  proof (cases rest)
    case Nil
    then show ?thesis by (simp add: literalAt_Cons)
  next
    case rest: (Cons x xs)
    have "matchNodes ic (map Chr (c # t) @ ns) prev rest =
        (if charEq ic c x then matchNodes ic (map Chr t @ ns) (Some x) xs else None)"
      by (simp add: rest)
    also have "\<dots> = (if charEq ic c x \<and> literalAt ic t xs
         then matchNodes ic ns (prevAt (Some x) xs (length t)) (drop (length t) xs) else None)"
      by (simp add: Cons.IH)
    also have "\<dots> = (if literalAt ic (c # t) rest
         then matchNodes ic ns (prevAt prev rest (length (c # t))) (drop (length (c # t)) rest)
         else None)"
      by (simp add: literalAt_Cons rest)
    finally show ?thesis .
  qed
qed

lemma isWordBoundary_index:
  assumes "i \<le> length s"
  shows "isWordBoundary (prevAt None s i) (drop i s) = wordBoundaryAt s i"
proof -
  have "(case drop i s of [] \<Rightarrow> False | c # _ \<Rightarrow> isWordChar c) = (i < length s \<and> isWordChar (s ! i))"
  proof (cases "i < length s")
    case True
    then have "drop i s = s ! i # drop (Suc i) s"
      by (simp add: Cons_nth_drop_Suc)
    with True show ?thesis by simp
  next
    case False
    then show ?thesis by simp
  qed
  then show ?thesis
    by (simp add: isWordBoundary_def wordBoundaryAt_def prevAt_def)
qed

lemma literalAt_index:
  assumes "i \<le> length s"
  shows "literalAt (\<not> hasUpperCase t) t (drop i s) = occursAt t s i"
  using assms by (auto simp: literalAt_def occursAt_def)

lemma prevAt_after:
  assumes "literalAt ic t (drop i s)" "i \<le> length s"
  shows "prevAt (prevAt None s i) (drop i s) (length t) = prevAt None s (i + length t)"
proof (cases "t = []")
  case True
  then show ?thesis by simp
next
  case False
  then have pos: "0 < length t" by simp
  have le: "length t \<le> length s - i"
    using assms by (simp add: literalAt_def)
  have "drop i s ! (length t - 1) = s ! (i + (length t - 1))"
    using pos le assms(2) by (intro nth_drop) simp
  moreover have "i + (length t - 1) = i + length t - 1"
    using pos by linarith
  ultimately show ?thesis
    using pos by (simp add: prevAt_def)
qed

lemma all_le_Suc:
  "(\<forall>j\<le>Suc n. Q j) \<longleftrightarrow> Q 0 \<and> (\<forall>j\<le>n. Q (Suc j))"
proof
  assume a: "\<forall>j\<le>Suc n. Q j"
  show "Q 0 \<and> (\<forall>j\<le>n. Q (Suc j))"
    using a by auto
next
  assume a: "Q 0 \<and> (\<forall>j\<le>n. Q (Suc j))"
  show "\<forall>j\<le>Suc n. Q j"
  proof (intro allI impI)
    fix j assume "j \<le> Suc n"
    with a show "Q j" by (cases j) auto
  qed
qed

lemma regexpExec_None_iff:
  "regexpExec m prev rest = None \<longleftrightarrow>
     (\<forall>j\<le>length rest. m (prevAt prev rest j) (drop j rest) = None)"
proof (induction rest arbitrary: prev)
  case Nil
  show ?case by simp
next
  case (Cons x xs)
  have "regexpExec m prev (x # xs) = None \<longleftrightarrow>
      m prev (x # xs) = None \<and> regexpExec m (Some x) xs = None"
    by (cases "m prev (x # xs)") simp_all
  also have "\<dots> \<longleftrightarrow> m prev (x # xs) = None \<and>
      (\<forall>j\<le>length xs. m (prevAt (Some x) xs j) (drop j xs) = None)"
    by (simp only: Cons.IH)
  also have "\<dots> \<longleftrightarrow>
      (\<forall>j\<le>length (x # xs). m (prevAt prev (x # xs) j) (drop j (x # xs)) = None)"
    by (simp add: all_le_Suc)
  finally show ?case .
qed

lemma exec_iff:
  "regexpExec m None s \<noteq> None \<longleftrightarrow>
     (\<exists>i\<le>length s. m (prevAt None s i) (drop i s) \<noteq> None)"
proof -
  have "regexpExec m None s \<noteq> None \<longleftrightarrow>
      \<not> (\<forall>i\<le>length s. m (prevAt None s i) (drop i s) = None)"
    by (simp only: regexpExec_None_iff)
  also have "\<dots> \<longleftrightarrow>
      (\<exists>i\<le>length s. m (prevAt None s i) (drop i s) \<noteq> None)"
    by (simp only: not_all not_imp)
  finally show ?thesis .
qed

lemma test_iff:
  "test r s \<longleftrightarrow> (\<exists>i\<le>length s. matcher r (prevAt None s i) (drop i s) \<noteq> None)"
  unfolding test_def by (rule exec_iff)

lemma stringMatch_test: "stringMatch h s (RegExpValue r) = Inr (test r s)"
  by (simp add: stringMatch_def test_def)

lemma list_ex_positions: "list_ex P (positions s) \<longleftrightarrow> (\<exists>i\<le>length s. P i)"
proof -
  have "list_ex P (positions s) \<longleftrightarrow> (\<exists>i. i \<in> set [0..<Suc (length s)] \<and> P i)"
    by (simp only: positions_def list_ex_iff Bex_def)
  also have "\<dots> \<longleftrightarrow> (\<exists>i. i < Suc (length s) \<and> P i)"
    by (simp only: set_upt atLeastLessThan_iff le0 simp_thms)
  also have "\<dots> \<longleftrightarrow> (\<exists>i\<le>length s. P i)"
    by (simp only: less_Suc_eq_le)
  finally show ?thesis .
qed

lemma ex_le_cong:
  assumes "\<And>i. i \<le> n \<Longrightarrow> P i = Q i"
  shows "(\<exists>i\<le>n. P i) = (\<exists>i\<le>(n::nat). Q i)"
  using assms by blast

lemma matchAt_anywhere:
  "nodesMatcher ic (map Chr t) prev rest =
     (if literalAt ic t rest then Some (length t, []) else None)"
proof -
  have "matchNodes ic (map Chr t) prev rest =
      (if literalAt ic t rest
       then Some (prevAt prev rest (length t), drop (length t) rest, []) else None)"
    using matchNodes_literal [of ic t "[]" prev rest] by simp
  then show ?thesis
    by (auto simp: nodesMatcher_def literalAt_def)
qed

lemma matchAt_startOfWord:
  "nodesMatcher ic (WordBoundary # map Chr t) prev rest =
     (if isWordBoundary prev rest \<and> literalAt ic t rest
      then Some (length t, []) else None)"
proof -
  have "matchNodes ic (map Chr t) prev rest =
      (if literalAt ic t rest
       then Some (prevAt prev rest (length t), drop (length t) rest, []) else None)"
    using matchNodes_literal [of ic t "[]" prev rest] by simp
  then show ?thesis
    by (auto simp: nodesMatcher_def literalAt_def)
qed

lemma matchAt_wholeWord:
  "nodesMatcher ic (WordBoundary # map Chr t @ [WordBoundary]) prev rest =
     (if isWordBoundary prev rest \<and> literalAt ic t rest \<and>
         isWordBoundary (prevAt prev rest (length t)) (drop (length t) rest)
      then Some (length t, []) else None)"
proof -
  have "matchNodes ic (map Chr t @ [WordBoundary]) prev rest =
      (if literalAt ic t rest \<and>
          isWordBoundary (prevAt prev rest (length t)) (drop (length t) rest)
       then Some (prevAt prev rest (length t), drop (length t) rest, []) else None)"
    by (simp add: matchNodes_literal)
  then show ?thesis
    by (auto simp: nodesMatcher_def literalAt_def)
qed

lemma test_anywhere:
  assumes "matcher r = nodesMatcher (ignoreCase r) (map Chr t)"
    "ignoreCase r = (\<not> hasUpperCase t)"
  shows "test r s \<longleftrightarrow> occurs t s"
proof -
  have "matcher r prev rest \<noteq> None \<longleftrightarrow> literalAt (\<not> hasUpperCase t) t rest"
    for prev rest
    by (simp add: assms(1) matchAt_anywhere assms(2))
  then have "test r s \<longleftrightarrow> (\<exists>i\<le>length s. literalAt (\<not> hasUpperCase t) t (drop i s))"
    by (simp only: test_iff)
  also have "\<dots> \<longleftrightarrow> (\<exists>i\<le>length s. occursAt t s i)"
    by (rule ex_le_cong) (rule literalAt_index)
  finally show ?thesis
    by (simp only: occurs_def list_ex_positions)
qed

lemma test_startOfWord:
  assumes "matcher r = nodesMatcher (ignoreCase r) (WordBoundary # map Chr t)"
    "ignoreCase r = (\<not> hasUpperCase t)"
  shows "test r s \<longleftrightarrow> occursAtWordStart t s"
proof -
  have "matcher r prev rest \<noteq> None \<longleftrightarrow>
      literalAt (\<not> hasUpperCase t) t rest \<and> isWordBoundary prev rest" for prev rest
    by (simp add: assms(1) matchAt_startOfWord assms(2) conj_commute)
  then have "test r s \<longleftrightarrow>
      (\<exists>i\<le>length s. literalAt (\<not> hasUpperCase t) t (drop i s) \<and>
                     isWordBoundary (prevAt None s i) (drop i s))"
    by (simp only: test_iff)
  also have "\<dots> \<longleftrightarrow> (\<exists>i\<le>length s. occursAt t s i \<and> wordBoundaryAt s i)"
    by (rule ex_le_cong) (simp only: literalAt_index isWordBoundary_index)
  finally show ?thesis
    by (simp only: occursAtWordStart_def list_ex_positions)
qed

lemma wholeWord_at:
  assumes "i \<le> length s"
  shows "isWordBoundary (prevAt None s i) (drop i s) \<and> literalAt (\<not> hasUpperCase t) t (drop i s) \<and>
         isWordBoundary (prevAt (prevAt None s i) (drop i s) (length t)) (drop (length t) (drop i s))
     \<longleftrightarrow> occursAt t s i \<and> wordBoundaryAt s i \<and> wordBoundaryAt s (i + length t)"
proof (cases "literalAt (\<not> hasUpperCase t) t (drop i s)")
  case True
  then have "length t \<le> length (drop i s)"
    by (simp add: literalAt_def)
  then have le: "i + length t \<le> length s"
    using assms by simp
  have "isWordBoundary (prevAt (prevAt None s i) (drop i s) (length t)) (drop (length t) (drop i s))
      = isWordBoundary (prevAt None s (i + length t)) (drop (i + length t) s)"
    by (simp add: prevAt_after [OF True assms] add.commute)
  also have "\<dots> = wordBoundaryAt s (i + length t)"
    using le by (rule isWordBoundary_index)
  finally show ?thesis
    using True literalAt_index [OF assms, of t] isWordBoundary_index [OF assms] by simp
next
  case False
  then show ?thesis
    using literalAt_index [OF assms, of t] by simp
qed

lemma test_wholeWord:
  assumes "matcher r = nodesMatcher (ignoreCase r) (WordBoundary # map Chr t @ [WordBoundary])"
    "ignoreCase r = (\<not> hasUpperCase t)"
  shows "test r s \<longleftrightarrow> occursAsWholeWord t s"
proof -
  have "matcher r prev rest \<noteq> None \<longleftrightarrow>
      isWordBoundary prev rest \<and> literalAt (\<not> hasUpperCase t) t rest \<and>
      isWordBoundary (prevAt prev rest (length t)) (drop (length t) rest)" for prev rest
    by (simp add: assms(1) matchAt_wholeWord assms(2))
  then have "test r s \<longleftrightarrow>
      (\<exists>i\<le>length s. isWordBoundary (prevAt None s i) (drop i s) \<and>
         literalAt (\<not> hasUpperCase t) t (drop i s) \<and>
         isWordBoundary (prevAt (prevAt None s i) (drop i s) (length t))
           (drop (length t) (drop i s)))"
    by (simp only: test_iff)
  also have "\<dots> \<longleftrightarrow>
      (\<exists>i\<le>length s. occursAt t s i \<and> wordBoundaryAt s i \<and> wordBoundaryAt s (i + length t))"
    by (rule ex_le_cong) (rule wholeWord_at)
  finally show ?thesis
    by (simp only: occursAsWholeWord_def list_ex_positions)
qed

lemma wholeWord_imp_wordStart: "occursAsWholeWord t s \<Longrightarrow> occursAtWordStart t s"
  by (auto simp: occursAsWholeWord_def occursAtWordStart_def list_ex_positions)

lemma wordStart_imp_occurs: "occursAtWordStart t s \<Longrightarrow> occurs t s"
  by (auto simp: occurs_def occursAtWordStart_def list_ex_positions)

subsection \<open>Splitting on a literal pattern\<close>

lemma splitLoop_Nil: "splitLoop m piece prev [] = [piece]"
  by (subst splitLoop.simps) simp

lemma splitLoop_miss:
  assumes "m prev (x # xs) = None"
  shows "splitLoop m piece prev (x # xs) = splitLoop m (piece @ [x]) (Some x) xs"
  by (subst splitLoop.simps) (use assms in simp)

lemma splitLoop_hit:
  assumes "m prev (x # xs) = Some (n, caps)" "0 < n" "n \<le> length (x # xs)"
  shows "splitLoop m piece prev (x # xs) =
           piece # caps @ splitLoop m [] (Some ((x # xs) ! (n - 1))) (drop n (x # xs))"
  by (subst splitLoop.simps) (use assms in \<open>simp add: Let_def min_def\<close>)

lemma splitLoop_literal:
  assumes "m = nodesMatcher ic (map Chr t)" "t \<noteq> []"
  shows "length (splitLoop m piece prev rest) \<ge> 1 \<and>
         sum_list (map length (splitLoop m piece prev rest))
           + length t * (length (splitLoop m piece prev rest) - 1) = length piece + length rest \<and>
         (1 < length (splitLoop m piece prev rest) \<longleftrightarrow>
            (\<exists>j\<le>length rest. literalAt (ic) t (drop j rest)))"
proof (induction "length rest" arbitrary: piece prev rest rule: less_induct)
  case less
  show ?case
  proof (cases rest)
    case Nil
    with assms(2) show ?thesis
      by (simp add: splitLoop_Nil literalAt_def)
  next
    case (Cons x xs)
    show ?thesis
    proof (cases "literalAt (ic) t rest")
      case False
      then have m: "m prev (x # xs) = None"
        by (simp add: assms(1) matchAt_anywhere Cons)
      have eq: "splitLoop m piece prev rest = splitLoop m (piece @ [x]) (Some x) xs"
        unfolding Cons using m by (rule splitLoop_miss [of m prev x xs piece])
      have ih: "length (splitLoop m (piece @ [x]) (Some x) xs) \<ge> 1 \<and>
         sum_list (map length (splitLoop m (piece @ [x]) (Some x) xs))
           + length t * (length (splitLoop m (piece @ [x]) (Some x) xs) - 1)
           = length (piece @ [x]) + length xs \<and>
         (1 < length (splitLoop m (piece @ [x]) (Some x) xs) \<longleftrightarrow>
            (\<exists>j\<le>length xs. literalAt (ic) t (drop j xs)))"
        by (rule less) (simp add: Cons)
      have ex: "(\<exists>j\<le>length rest. literalAt (ic) t (drop j rest)) \<longleftrightarrow>
          (\<exists>j\<le>length xs. literalAt (ic) t (drop j xs))"
      proof
        assume "\<exists>j\<le>length rest. literalAt (ic) t (drop j rest)"
        then obtain j where j: "j \<le> length rest" "literalAt (ic) t (drop j rest)"
          by blast
        with False obtain k where k: "j = Suc k"
          by (cases j) auto
        with j Cons have "k \<le> length xs" "literalAt (ic) t (drop k xs)"
          by simp_all
        then show "\<exists>j\<le>length xs. literalAt (ic) t (drop j xs)"
          by blast
      next
        assume "\<exists>j\<le>length xs. literalAt (ic) t (drop j xs)"
        then obtain k where "k \<le> length xs" "literalAt (ic) t (drop k xs)"
          by blast
        then have "Suc k \<le> length rest" "literalAt (ic) t (drop (Suc k) rest)"
          by (simp_all add: Cons)
        then show "\<exists>j\<le>length rest. literalAt (ic) t (drop j rest)"
          by blast
      qed
      show ?thesis
        unfolding eq ex using ih by (simp add: Cons)
    next
      case True
      have pos: "0 < length t" using assms(2) by simp
      have le: "length t \<le> length rest" using True by (simp add: literalAt_def)
      have m: "m prev (x # xs) = Some (length t, [])"
        using True by (simp add: assms(1) matchAt_anywhere Cons)
      define rest' where "rest' = drop (length t) rest"
      define tail where "tail = splitLoop m [] (Some (rest ! (length t - 1))) rest'"
      have eq: "splitLoop m piece prev rest = piece # tail"
        unfolding Cons tail_def rest'_def
        using splitLoop_hit [of m prev x xs "length t" "[]" piece] m pos le by (simp add: Cons)
      have shorter: "length rest' < length rest"
        using pos le by (simp add: rest'_def Cons)
      have ih: "length tail \<ge> 1 \<and>
         sum_list (map length tail) + length t * (length tail - 1) = length ([]::string) + length rest'"
        unfolding tail_def using less [OF shorter] by blast
      have len': "length rest' = length rest - length t"
        by (simp add: rest'_def)
      have s1: "sum_list (map length tail) + length t * (length tail - 1) = length rest - length t"
        using ih len' by simp
      have s2: "length t * (length (piece # tail) - 1) = length t * (length tail - 1) + length t"
        using ih by (cases tail) simp_all
      have "sum_list (map length (piece # tail)) + length t * (length (piece # tail) - 1)
          = length piece + (sum_list (map length tail) + length t * (length tail - 1)) + length t"
        unfolding s2 by simp
      also have "\<dots> = length piece + (length rest - length t) + length t"
        by (simp only: s1)
      also have "\<dots> = length piece + length rest"
        using le by simp
      finally have "sum_list (map length (piece # tail)) + length t * (length (piece # tail) - 1)
          = length piece + length rest" .
      moreover have "length (piece # tail) \<ge> 1"
        by simp
      moreover have "1 < length (piece # tail)"
        using ih by (cases tail) simp_all
      moreover have "\<exists>j\<le>length rest. literalAt (ic) t (drop j rest)"
        using True by (intro exI [of _ 0]) simp
      ultimately show ?thesis
        unfolding eq by blast
    qed
  qed
qed

lemma split_literal:
  assumes "matcher r = nodesMatcher (ignoreCase r) (map Chr t)" "t \<noteq> []"
  shows "sum_list (map length (split s r)) + length t * (length (split s r) - 1) = length s"
    and "1 < length (split s r) \<longleftrightarrow> (\<exists>j\<le>length s. literalAt (ignoreCase r) t (drop j s))"
    and "1 \<le> length (split s r)"
proof -
  have none: "matcher r None [] = None"
    using assms(2) by (simp add: assms(1) matchAt_anywhere literalAt_def)
  show "sum_list (map length (split s r)) + length t * (length (split s r) - 1) = length s"
  proof (cases "s = []")
    case True
    with none show ?thesis by (simp add: split_def splitOn_def)
  next
    case False
    then show ?thesis
      using splitLoop_literal [OF assms, of "[]" None s] by (simp add: split_def splitOn_def)
  qed
  show "1 < length (split s r) \<longleftrightarrow> (\<exists>j\<le>length s. literalAt (ignoreCase r) t (drop j s))"
  proof (cases "s = []")
    case True
    with none assms(2) show ?thesis by (simp add: split_def splitOn_def literalAt_def)
  next
    case False
    then show ?thesis
      using splitLoop_literal [OF assms, of "[]" None s] by (simp add: split_def splitOn_def)
  qed
  show "1 \<le> length (split s r)"
  proof (cases "s = []")
    case True
    with none show ?thesis by (simp add: split_def splitOn_def)
  next
    case False
    then show ?thesis
      using splitLoop_literal [OF assms, of "[]" None s] by (simp add: split_def splitOn_def)
  qed
qed

lemma matchedCount_sum:
  "matchedCount nonMatching string = int (length string) - int (sum_list (map length nonMatching))"
proof -
  have "foldl (\<lambda>p c. p - int (length c)) a xs = a - int (sum_list (map length xs))" for a xs
    by (induction xs arbitrary: a) simp_all
  then show ?thesis by (simp add: matchedCount_def)
qed

subsection \<open>The cache: smartcase\<close>

lemma hasUpperCase_append: "hasUpperCase (a @ b) \<longleftrightarrow> hasUpperCase a \<or> hasUpperCase b"
  by (simp add: hasUpperCase_def list_ex_iff) blast

lemma not_upper_backslash: "\<not> isUpperCase backslash"
  by (simp add: isUpperCase_def codeUnit_def backslash_def)

lemma hasUpperCase_escape: "hasUpperCase (escapeRegexSpecialCharacters t) = hasUpperCase t"
  by (induction t) (simp_all add: hasUpperCase_def not_upper_backslash)

lemma hasUpperCase_wordBoundaryAffix: "\<not> hasUpperCase wordBoundaryAffix"
  by (simp add: hasUpperCase_def wordBoundaryAffix_def isUpperCase_def codeUnit_def
      backslash_def)

text \<open>No inherited name has a metacharacter, so a term is one exactly if its key is.\<close>

lemma inheritedNames_plain:
  "list_all (\<lambda>k. list_all (\<lambda>c. \<not> isSpecial c) k) inheritedNames"
  by code_simp

lemma inheritedName_plain:
  assumes "inheritedName k" "c \<in> set k"
  shows "\<not> isSpecial c"
  using inheritedNames_plain assms unfolding inheritedName_def list_all_iff by blast

lemma escape_plain:
  assumes "\<forall>c\<in>set t. \<not> isSpecial c"
  shows "escapeRegexSpecialCharacters t = t"
  using assms by (induction t) simp_all

lemma escape_special:
  assumes "c \<in> set t" "isSpecial c"
  shows "backslash \<in> set (escapeRegexSpecialCharacters t)"
  using assms by (induction t) auto

lemma special_backslash: "isSpecial backslash"
  by (simp add: isSpecial_iff)

lemma inheritedName_escape:
  "inheritedName (escapeRegexSpecialCharacters t) \<longleftrightarrow> inheritedName t"
proof (cases "\<forall>c\<in>set t. \<not> isSpecial c")
  case True
  then show ?thesis by (simp add: escape_plain)
next
  case False
  then obtain c where c: "c \<in> set t" "isSpecial c" by blast
  then have "backslash \<in> set (escapeRegexSpecialCharacters t)"
    by (rule escape_special)
  then have "\<not> inheritedName (escapeRegexSpecialCharacters t)"
    using inheritedName_plain special_backslash by blast
  moreover have "\<not> inheritedName t"
    using inheritedName_plain c by blast
  ultimately show ?thesis by simp
qed

lemma inheritedName_wordBoundaryAffix: "\<not> inheritedName (wordBoundaryAffix @ k)"
proof
  assume "inheritedName (wordBoundaryAffix @ k)"
  moreover have "backslash \<in> set (wordBoundaryAffix @ k)"
    by (simp add: wordBoundaryAffix_def)
  ultimately show False
    using inheritedName_plain special_backslash by blast
qed

lemma smartcaseCache_new: "smartcaseCache newRegexpCache"
  by (simp add: smartcaseCache_def newRegexpCache_def)

lemma smartcaseCache_clear: "smartcaseCache (clear this)"
  by (simp add: smartcaseCache_def clear_def)

lemma smartcaseCache_init: "smartcaseCache (init this)"
  by (simp add: smartcaseCache_def clear_def init_def)

lemma smartcaseCache_readied: "smartcaseCache this \<Longrightarrow> smartcaseCache (readied this)"
  by (simp add: readied_def smartcaseCache_init)

lemma smartcaseCache_lookup:
  assumes "smartcaseCache this" "cache this k = Some r"
  shows "source r = k" "ignoreCase r = (\<not> hasUpperCase k)"
    "parseRegexp [] [] None k = Parsed ns \<Longrightarrow> matcher r = nodesMatcher (ignoreCase r) ns"
  using assms unfolding smartcaseCache_def by blast+

lemma newRegExp_fields:
  assumes "newRegExp h i src flags = Inr r"
  shows "source r = src" "ignoreCase r = (CHR ''i'' \<in> set flags)"
    "parseRegexp [] [] None src = Parsed ns \<Longrightarrow> matcher r = nodesMatcher (ignoreCase r) ns"
  using assms by (auto simp: newRegExp_def compile_def split: sum.splits)

text \<open>A call of \<open>get\<close> whose affixes have no upper-case letter keeps the cache smartcase.\<close>

lemma get_smartcase:
  assumes inv: "smartcaseCache this"
    and g: "get h this string prefix suffix = Inr (v, this1)"
    and up: "hasUpperCase (regexpString string prefix suffix) = hasUpperCase string"
  shows "smartcaseCache this1"
    and "\<not> inheritedName (regexpString string prefix suffix) \<Longrightarrow>
         \<exists>r. v = RegExpValue r \<and> ignoreCase r = (\<not> hasUpperCase string) \<and>
             (\<forall>ns. parseRegexp [] [] None (regexpString string prefix suffix) = Parsed ns
                \<longrightarrow> matcher r = nodesMatcher (ignoreCase r) ns)"
proof -
  define key where "key = regexpString string prefix suffix"
  define this0 where "this0 = readied this"
  have inv0: "smartcaseCache this0"
    unfolding this0_def using inv by (rule smartcaseCache_readied)
  have all: "smartcaseCache this1 \<and>
      (\<not> inheritedName key \<longrightarrow>
         (\<exists>r. v = RegExpValue r \<and> ignoreCase r = (\<not> hasUpperCase string) \<and>
             (\<forall>ns. parseRegexp [] [] None key = Parsed ns
                \<longrightarrow> matcher r = nodesMatcher (ignoreCase r) ns)))"
    using g
  proof (cases rule: get_cases)
    case hit
    have s1: "smartcaseCache this1"
      using inv0 by (simp add: hit(2) this0_def)
    have "\<exists>r. v = RegExpValue r \<and> ignoreCase r = (\<not> hasUpperCase string) \<and>
             (\<forall>ns. parseRegexp [] [] None key = Parsed ns
                \<longrightarrow> matcher r = nodesMatcher (ignoreCase r) ns)"
      if ni: "\<not> inheritedName key"
    proof -
      from hit(1) ni obtain r where r: "v = RegExpValue r" "cache this0 key = Some r"
        by (auto simp: getProperty_def key_def this0_def split: option.splits)
      note l = smartcaseCache_lookup [OF inv0 r(2)]
      have "ignoreCase r = (\<not> hasUpperCase string)"
        using l(2) up by (simp add: key_def)
      with r(1) l(3) show ?thesis by blast
    qed
    with s1 show ?thesis by blast
  next
    case (miss r)
    note f = newRegExp_fields [OF miss(2)]
    have ic: "ignoreCase r = (\<not> hasUpperCase string)"
      using f(2) by (cases "hasUpperCase string") simp_all
    have c1: "cache this1 k = (if k = key then Some r else cache this0 k)" for k
      by (simp add: miss(4) key_def this0_def)
    have "smartcaseCache this1"
      unfolding smartcaseCache_def
    proof (intro allI impI conjI)
      fix k x ns
      assume c: "cache this1 k = Some x"
      have d: "source x = k \<and> ignoreCase x = (\<not> hasUpperCase k) \<and>
          (parseRegexp [] [] None k = Parsed ns \<longrightarrow> matcher x = nodesMatcher (ignoreCase x) ns)"
      proof (cases "k = key")
        case True
        with c have "x = r" by (simp add: c1)
        with True f ic up show ?thesis by (simp add: key_def)
      next
        case False
        with c have "cache this0 k = Some x" by (simp add: c1)
        from smartcaseCache_lookup [OF inv0 this] show ?thesis by simp
      qed
      from d show "source x = k" by simp
      from d show "ignoreCase x = (\<not> hasUpperCase k)" by simp
      assume "parseRegexp [] [] None k = Parsed ns"
      with d show "matcher x = nodesMatcher (ignoreCase x) ns" by simp
    qed
    moreover have "\<forall>ns. parseRegexp [] [] None key = Parsed ns
        \<longrightarrow> matcher r = nodesMatcher (ignoreCase r) ns"
      using f(3) by (simp add: key_def)
    ultimately show ?thesis
      using ic miss(3) by blast
  qed
  from all show "smartcaseCache this1" by simp
  from all show "\<exists>r. v = RegExpValue r \<and> ignoreCase r = (\<not> hasUpperCase string) \<and>
             (\<forall>ns. parseRegexp [] [] None (regexpString string prefix suffix) = Parsed ns
                \<longrightarrow> matcher r = nodesMatcher (ignoreCase r) ns)"
    if "\<not> inheritedName (regexpString string prefix suffix)"
    using that by (simp add: key_def)
qed

lemma get_anywhere:
  assumes "smartcaseCache this" "\<not> inheritedName t"
  shows "\<exists>r this1. get h this t None None = Inr (RegExpValue r, this1) \<and>
           smartcaseCache this1 \<and> ignoreCase r = (\<not> hasUpperCase t) \<and>
           matcher r = nodesMatcher (ignoreCase r) (map Chr t)"
proof -
  obtain v this1 where g: "get h this t None None = Inr (v, this1)"
    using get_anywhere_total by blast
  have up: "hasUpperCase (regexpString t None None) = hasUpperCase t"
    by (simp add: regexpString_simps hasUpperCase_escape)
  have ni: "\<not> inheritedName (regexpString t None None)"
    using assms(2) by (simp add: regexpString_simps inheritedName_escape)
  have p: "parseRegexp [] [] None (regexpString t None None) = Parsed (map Chr t)"
    by (simp only: regexpString_simps parse_anywhere)
  note s = get_smartcase [OF assms(1) g up]
  from s(2) [OF ni] p obtain r where "v = RegExpValue r"
    "ignoreCase r = (\<not> hasUpperCase t)" "matcher r = nodesMatcher (ignoreCase r) (map Chr t)"
    by blast
  with g s(1) show ?thesis by blast
qed

lemma get_startOfWord:
  assumes "smartcaseCache this"
  shows "\<exists>r this1. get h this t (Some wordBoundaryAffix) None = Inr (RegExpValue r, this1) \<and>
           smartcaseCache this1 \<and> ignoreCase r = (\<not> hasUpperCase t) \<and>
           matcher r = nodesMatcher (ignoreCase r) (WordBoundary # map Chr t)"
proof -
  have p: "parseRegexp [] [] None (regexpString t (Some wordBoundaryAffix) None)
      = Parsed (WordBoundary # map Chr t)"
    by (simp only: regexpString_simps parse_startOfWord)
  obtain v this1 where g: "get h this t (Some wordBoundaryAffix) None = Inr (v, this1)"
    using get_total [OF p] by blast
  have up: "hasUpperCase (regexpString t (Some wordBoundaryAffix) None) = hasUpperCase t"
    by (simp add: regexpString_simps hasUpperCase_escape hasUpperCase_append
        hasUpperCase_wordBoundaryAffix)
  have ni: "\<not> inheritedName (regexpString t (Some wordBoundaryAffix) None)"
    by (simp only: regexpString_simps inheritedName_wordBoundaryAffix not_False_eq_True)
  note s = get_smartcase [OF assms g up]
  from s(2) [OF ni] p obtain r where "v = RegExpValue r"
    "ignoreCase r = (\<not> hasUpperCase t)"
    "matcher r = nodesMatcher (ignoreCase r) (WordBoundary # map Chr t)"
    by blast
  with g s(1) show ?thesis by blast
qed

lemma get_wholeWord:
  assumes "smartcaseCache this"
  shows "\<exists>r this1. get h this t (Some wordBoundaryAffix) (Some wordBoundaryAffix)
             = Inr (RegExpValue r, this1) \<and>
           smartcaseCache this1 \<and> ignoreCase r = (\<not> hasUpperCase t) \<and>
           matcher r = nodesMatcher (ignoreCase r) (WordBoundary # map Chr t @ [WordBoundary])"
proof -
  have p: "parseRegexp [] [] None
        (regexpString t (Some wordBoundaryAffix) (Some wordBoundaryAffix))
      = Parsed (WordBoundary # map Chr t @ [WordBoundary])"
    by (simp only: regexpString_simps parse_wholeWord)
  obtain v this1
    where g: "get h this t (Some wordBoundaryAffix) (Some wordBoundaryAffix) = Inr (v, this1)"
    using get_total [OF p] by blast
  have up: "hasUpperCase (regexpString t (Some wordBoundaryAffix) (Some wordBoundaryAffix))
      = hasUpperCase t"
    by (simp add: regexpString_simps hasUpperCase_escape hasUpperCase_append
        hasUpperCase_wordBoundaryAffix)
  have ni: "\<not> inheritedName (regexpString t (Some wordBoundaryAffix) (Some wordBoundaryAffix))"
    by (simp only: regexpString_simps inheritedName_wordBoundaryAffix not_False_eq_True)
  note s = get_smartcase [OF assms g up]
  from s(2) [OF ni] p obtain r where "v = RegExpValue r"
    "ignoreCase r = (\<not> hasUpperCase t)"
    "matcher r = nodesMatcher (ignoreCase r) (WordBoundary # map Chr t @ [WordBoundary])"
    by blast
  with g s(1) show ?thesis by blast
qed

text \<open>
  A term that is the name of an inherited property has that name as its key, and \<open>get\<close>
  returns the inherited value for it unless the cache object has a property of its own
  under the name; it never gets one through \<open>get\<close>, which stores only where it read nothing.
\<close>

lemma get_inherited:
  assumes "inheritedName t" "cache (readied this) t = None"
  shows "get h this t None None = Inr (InheritedValue t, readied this)"
proof -
  have "\<forall>c\<in>set t. \<not> isSpecial c"
    using assms(1) inheritedName_plain by blast
  then have k: "regexpString t None None = t"
    by (simp add: regexpString_simps escape_plain)
  have "getProperty (cache (readied this)) t = Some (InheritedValue t)"
    using assms by (simp add: getProperty_def)
  then show ?thesis
    by (simp add: get_unfold k)
qed

lemma get_inherited_fresh:
  assumes "inheritedName t"
  shows "get h newRegexpCache t None None = Inr (InheritedValue t, init newRegexpCache)"
proof -
  have "readied newRegexpCache = init newRegexpCache"
    by (simp add: readied_def newRegexpCache_def)
  with get_inherited [OF assms cache_readied_new, of h] show ?thesis
    by simp
qed

lemma inheritedName_constructor: "inheritedName ''constructor''"
  by (simp add: inheritedName_def inheritedNames_def)

subsection \<open>scoreTerm\<close>

lemma split_literal_occurs:
  assumes "matcher r = nodesMatcher (ignoreCase r) (map Chr t)"
    "ignoreCase r = (\<not> hasUpperCase t)" "t \<noteq> []"
  shows "1 < length (split s r) \<longleftrightarrow> occurs t s"
proof -
  have "1 < length (split s r) \<longleftrightarrow> (\<exists>j\<le>length s. literalAt (\<not> hasUpperCase t) t (drop j s))"
    using split_literal(2) [OF assms(1,3), of s] by (simp only: assms(2))
  also have "\<dots> \<longleftrightarrow> (\<exists>i\<le>length s. occursAt t s i)"
    by (rule ex_le_cong) (rule literalAt_index)
  finally show ?thesis
    by (simp only: occurs_def list_ex_positions)
qed

lemma scoreTerm_unfold:
  assumes g1: "get h this term None None = Inr (RegExpValue r, this1)"
    and g2: "get h this1 term (Some wordBoundaryAffix) None = Inr (RegExpValue rS, this2)"
    and g3: "get h this2 term (Some wordBoundaryAffix) (Some wordBoundaryAffix)
               = Inr (RegExpValue rW, this3)"
  shows "scoreTerm h this term string =
     (if 1 < length (split string r) then
        (if test rS string then
           (if test rW string
            then Inr ((matchAnywhere + matchStartOfWord + matchWholeWord,
                       min (matchedCount (split string r) string) (int (length string))), this3)
            else Inr ((matchAnywhere + matchStartOfWord,
                       min (matchedCount (split string r) string) (int (length string))), this3))
         else Inr ((matchAnywhere,
                    min (matchedCount (split string r) string) (int (length string))), this2))
      else Inr ((0, min 0 (int (length string))), this1))"
  by (simp add: scoreTerm_def g1 g2 g3 Let_def min_def splitValue_def testValue_def)

lemma scoreTerm_value:
  assumes "smartcaseCache this" "term \<noteq> []" "\<not> inheritedName term"
  shows "\<exists>r this1 this'.
     get h this term None None = Inr (RegExpValue r, this1) \<and>
     scoreTerm h this term string =
       Inr ((if occurs term string
             then matchAnywhere
               + (if occursAtWordStart term string then matchStartOfWord else 0)
               + (if occursAsWholeWord term string then matchWholeWord else 0)
             else 0,
             int (length term) * (int (length (split string r)) - 1)), this') \<and>
     smartcaseCache this' \<and>
     sum_list (map length (split string r)) + length term * (length (split string r) - 1)
       = length string \<and>
     1 \<le> length (split string r) \<and>
     (1 < length (split string r) \<longleftrightarrow> occurs term string)"
proof -
  obtain r this1 where g1: "get h this term None None = Inr (RegExpValue r, this1)"
    and i1: "smartcaseCache this1"
    and ic1: "ignoreCase r = (\<not> hasUpperCase term)"
    and n1: "matcher r = nodesMatcher (ignoreCase r) (map Chr term)"
    using get_anywhere [OF assms(1,3)] by blast
  obtain rS this2
    where g2: "get h this1 term (Some wordBoundaryAffix) None = Inr (RegExpValue rS, this2)"
    and i2: "smartcaseCache this2"
    and icS: "ignoreCase rS = (\<not> hasUpperCase term)"
    and nS: "matcher rS = nodesMatcher (ignoreCase rS) (WordBoundary # map Chr term)"
    using get_startOfWord [OF i1] by blast
  obtain rW this3
    where g3: "get h this2 term (Some wordBoundaryAffix) (Some wordBoundaryAffix)
        = Inr (RegExpValue rW, this3)"
    and i3: "smartcaseCache this3"
    and icW: "ignoreCase rW = (\<not> hasUpperCase term)"
    and nW: "matcher rW =
        nodesMatcher (ignoreCase rW) (WordBoundary # map Chr term @ [WordBoundary])"
    using get_wholeWord [OF i2] by blast
  define L where "L = split string r"
  define count0 where "count0 = matchedCount L string"
  have len: "1 < length L \<longleftrightarrow> occurs term string"
    unfolding L_def using n1 ic1 assms(2) by (rule split_literal_occurs)
  have ge1: "1 \<le> length L"
    unfolding L_def using n1 assms(2) by (rule split_literal(3))
  have sum: "sum_list (map length L) + length term * (length L - 1) = length string"
    unfolding L_def using n1 assms(2) by (rule split_literal(1))
  have "int (length string) = int (sum_list (map length L)) + int (length term * (length L - 1))"
    using sum by linarith
  then have c0nat: "count0 = int (length term * (length L - 1))"
    by (simp add: count0_def matchedCount_sum)
  have "int (length term * (length L - 1)) = int (length term) * (int (length L) - 1)"
    using ge1 by (simp add: of_nat_diff)
  with c0nat have c0: "count0 = int (length term) * (int (length L) - 1)"
    by simp
  have "count0 \<le> int (length string)"
    by (simp add: count0_def matchedCount_sum)
  then have cmin: "min count0 (int (length string)) = count0"
    by simp
  have tS: "test rS string \<longleftrightarrow> occursAtWordStart term string"
    using nS icS by (rule test_startOfWord)
  have tW: "test rW string \<longleftrightarrow> occursAsWholeWord term string"
    using nW icW by (rule test_wholeWord)
  note u = scoreTerm_unfold [OF g1 g2 g3, of string, folded L_def, folded count0_def,
      unfolded len tS tW cmin]
  have "\<exists>this'. scoreTerm h this term string =
       Inr ((if occurs term string
             then matchAnywhere
               + (if occursAtWordStart term string then matchStartOfWord else 0)
               + (if occursAsWholeWord term string then matchWholeWord else 0)
             else 0, count0), this') \<and> smartcaseCache this'"
  proof (cases "occurs term string")
    case False
    have "length L = 1"
      using len ge1 False by linarith
    then have "count0 = 0"
      by (simp add: c0)
    with u False i1 show ?thesis by simp
  next
    case occ: True
    show ?thesis
    proof (cases "occursAtWordStart term string")
      case False
      then have "\<not> occursAsWholeWord term string"
        using wholeWord_imp_wordStart by blast
      with u occ False i2 show ?thesis by simp
    next
      case True
      with u occ i3 show ?thesis by simp
    qed
  qed
  with g1 sum ge1 len show ?thesis
    unfolding c0 L_def by blast
qed


lemma map_sum_fst_Inr:
  assumes "map_sum id fst x = Inr p"
  shows "\<exists>s. x = Inr (p, s)"
  using assms by (cases x) auto

lemma not_inherited_an: "\<not> inheritedName ''an''" "\<not> inheritedName ''com''"
  by (simp_all add: inheritedName_def inheritedNames_def)

text \<open>
  The two hypotheses of \<open>scoreTerm_value\<close> are needed. For the term \<open>constructor\<close> the string
  \<open>constructor\<close> is split on the text of the inherited function, which it does not contain:
  the score and the count are 0 although the term occurs. And in the cache that
  \<open>get("ar", "M")\<close> leaves behind, which is not smartcase, the term \<open>Mar\<close> scores
  \<open>matchAnywhere\<close> in \<open>mario\<close>, in which it does not occur.
\<close>

lemma scoreTerm_inherited_name:
  "occurs ''constructor'' ''constructor'' \<and>
   scoreTerm h newRegexpCache ''constructor'' ''constructor''
     = Inr ((0, 0), init newRegexpCache)"
proof
  show "occurs ''constructor'' ''constructor''" by code_simp
next
  note g = get_inherited_fresh [OF inheritedName_constructor, of h]
  have "splitValue ''constructor'' (InheritedValue ''constructor'') = [''constructor'']"
    by code_simp
  then show "scoreTerm h newRegexpCache ''constructor'' ''constructor''
     = Inr ((0, 0), init newRegexpCache)"
    by (simp add: scoreTerm_def g)
qed

lemma scoreTerm_after_collision:
  "\<not> occurs ''Mar'' ''mario'' \<and>
   (\<exists>v this1 this2.
      get h newRegexpCache ''ar'' (Some ''M'') None = Inr (v, this1) \<and>
      \<not> smartcaseCache this1 \<and>
      scoreTerm h this1 ''Mar'' ''mario'' = Inr ((matchAnywhere, 3), this2))"
proof
  show "\<not> occurs ''Mar'' ''mario''" by code_simp
next
  have "map_sum id fst
      (case get h newRegexpCache ''ar'' (Some ''M'') None of
         Inl e \<Rightarrow> Inl e
       | Inr (v, this1) \<Rightarrow> scoreTerm h this1 ''Mar'' ''mario'') = Inr (matchAnywhere, 3)"
    by code_simp
  then obtain v this1 this2
    where g: "get h newRegexpCache ''ar'' (Some ''M'') None = Inr (v, this1)"
      and s: "scoreTerm h this1 ''Mar'' ''mario'' = Inr ((matchAnywhere, 3), this2)"
    by (auto split: sum.splits dest: map_sum_fst_Inr)
  have "\<not> smartcaseCache this1"
  proof
    assume i: "smartcaseCache this1"
    have ne: "''Mar'' \<noteq> []" by simp
    have ni: "\<not> inheritedName ''Mar''"
      by (simp add: inheritedName_def inheritedNames_def)
    have "\<not> occurs ''Mar'' ''mario''" by code_simp
    with scoreTerm_value [OF i ne ni, of h "''mario''"] s show False
      by (auto simp: matchAnywhere_def)
  qed
  with g s show "\<exists>v this1 this2.
      get h newRegexpCache ''ar'' (Some ''M'') None = Inr (v, this1) \<and>
      \<not> smartcaseCache this1 \<and>
      scoreTerm h this1 ''Mar'' ''mario'' = Inr ((matchAnywhere, 3), this2)"
    by blast
qed

text \<open>
  Claim C1, as the specification words it, fails in three ways. It reads a word boundary as
  the glossary does: a position adjacent to a non-word character or to an edge of the
  string. Read so, the term \<open>c++\<close> is a whole word of the string \<open>c++\<close>, and the claim gives
  it the score \<open>maximumScore\<close>; the program tests the two boundaries with the assertion
  \<open>\b\<close>, which fails at the end of \<open>c++\<close>, and the score is \<open>matchAnywhere +
  matchStartOfWord\<close>. The term \<open>constructor\<close> occurs in the string \<open>constructor\<close>, and the
  program returns the score 0 and the count 0. And after \<open>get("ar", "M")\<close> the term \<open>Mar\<close>,
  which does not occur in \<open>mario\<close>, gets the score \<open>matchAnywhere\<close> and the count 3 there.
\<close>

theorem scoreTerm_spec_counterexample:
  "(glossaryWholeWord ''c++'' ''c++'' \<and>
    (\<forall>h. \<exists>this'. scoreTerm h newRegexpCache ''c++'' ''c++''
             = Inr ((matchAnywhere + matchStartOfWord, 3), this')) \<and>
    matchAnywhere + matchStartOfWord \<noteq> matchAnywhere + matchStartOfWord + matchWholeWord \<and>
    \<not> occursAsWholeWord ''c++'' ''c++'') \<and>
   (occurs ''constructor'' ''constructor'' \<and>
    (\<forall>h. scoreTerm h newRegexpCache ''constructor'' ''constructor''
           = Inr ((0, 0), init newRegexpCache))) \<and>
   (\<not> occurs ''Mar'' ''mario'' \<and>
    (\<forall>h. \<exists>v this1 this2.
       get h newRegexpCache ''ar'' (Some ''M'') None = Inr (v, this1) \<and>
       scoreTerm h this1 ''Mar'' ''mario'' = Inr ((matchAnywhere, 3), this2)))"
proof (intro conjI allI)
  show "glossaryWholeWord ''c++'' ''c++''" by code_simp
next
  fix h
  have "map_sum id fst (scoreTerm h newRegexpCache ''c++'' ''c++'')
      = Inr (matchAnywhere + matchStartOfWord, 3)"
    by code_simp
  then show "\<exists>this'. scoreTerm h newRegexpCache ''c++'' ''c++''
            = Inr ((matchAnywhere + matchStartOfWord, 3), this')"
    by (rule map_sum_fst_Inr)
next
  show "matchAnywhere + matchStartOfWord \<noteq> matchAnywhere + matchStartOfWord + matchWholeWord"
    by (simp add: matchWholeWord_def)
next
  show "\<not> occursAsWholeWord ''c++'' ''c++''" by code_simp
next
  show "occurs ''constructor'' ''constructor''"
    using scoreTerm_inherited_name by (rule conjunct1)
next
  fix h
  show "scoreTerm h newRegexpCache ''constructor'' ''constructor''
      = Inr ((0, 0), init newRegexpCache)"
    using scoreTerm_inherited_name by (rule conjunct2)
next
  show "\<not> occurs ''Mar'' ''mario''"
    using scoreTerm_after_collision by (rule conjunct1)
next
  fix h
  from scoreTerm_after_collision [of h, THEN conjunct2]
  show "\<exists>v this1 this2.
       get h newRegexpCache ''ar'' (Some ''M'') None = Inr (v, this1) \<and>
       scoreTerm h this1 ''Mar'' ''mario'' = Inr ((matchAnywhere, 3), this2)"
    by blast
qed

text \<open>
  Claim C1, amended: for a non-empty term, \<open>scoreTerm\<close> returns a score between 0 and
  \<open>maximumScore\<close> and a count between 0 and the length of the string. If the term does not
  occur in the string both are 0. If it occurs, the score is \<open>matchAnywhere\<close>, plus
  \<open>matchStartOfWord\<close> when some occurrence starts at a word boundary, plus \<open>matchWholeWord\<close>
  when some occurrence has a word boundary on both sides, where a word boundary is a
  position at which the assertion \<open>\b\<close> holds: exactly one of the two neighbouring characters
  is a word character. The count is the length of the string minus the total length of the
  pieces obtained by splitting the string on the term's pattern, capped at the length of
  the string (it is the length of the term for every separator found). This is stated for
  a term that is not the name of a property every plain object inherits, and for a cache
  that is smartcase (\<open>smartcaseCache\<close>), as it is after \<open>init\<close>, \<open>clear\<close> and every call the
  module itself makes.
\<close>

theorem scoreTerm_spec:
  assumes "smartcaseCache this" "term \<noteq> []" "\<not> inheritedName term"
  shows "\<exists>score count this' r this1.
     scoreTerm h this term string = Inr ((score, count), this') \<and> smartcaseCache this' \<and>
     0 \<le> score \<and> score \<le> maximumScore \<and> 0 \<le> count \<and> count \<le> int (length string) \<and>
     (\<not> occurs term string \<longrightarrow> score = 0 \<and> count = 0) \<and>
     (occurs term string \<longrightarrow>
        score = matchAnywhere
          + (if occursAtWordStart term string then matchStartOfWord else 0)
          + (if occursAsWholeWord term string then matchWholeWord else 0)) \<and>
     get h this term None None = Inr (RegExpValue r, this1) \<and>
     count = min (int (length string) - int (sum_list (map length (split string r))))
               (int (length string)) \<and>
     count = int (length term) * (int (length (split string r)) - 1)"
proof -
  define score where "score =
     (if occurs term string
      then matchAnywhere
        + (if occursAtWordStart term string then matchStartOfWord else 0)
        + (if occursAsWholeWord term string then matchWholeWord else 0)
      else 0)"
  obtain r this1 this' where g: "get h this term None None = Inr (RegExpValue r, this1)"
    and v: "scoreTerm h this term string =
       Inr ((score, int (length term) * (int (length (split string r)) - 1)), this')"
    and inv: "smartcaseCache this'"
    and sum: "sum_list (map length (split string r))
        + length term * (length (split string r) - 1) = length string"
    and ge1: "1 \<le> length (split string r)"
    and len: "1 < length (split string r) \<longleftrightarrow> occurs term string"
    using scoreTerm_value [OF assms, of h string] unfolding score_def by blast
  define count where "count = int (length term) * (int (length (split string r)) - 1)"
  have cn: "int (length term * (length (split string r) - 1)) = count"
    using ge1 by (simp add: count_def of_nat_diff)
  then have cnat: "count = int (length string) - int (sum_list (map length (split string r)))"
    using sum by linarith
  have c_le: "count \<le> int (length string)"
    by (simp add: cnat)
  have c_ge: "0 \<le> count"
    by (simp only: cn [symmetric] of_nat_0_le_iff)
  have c_min: "count = min (int (length string) - int (sum_list (map length (split string r))))
      (int (length string))"
    using c_le by (simp add: cnat)
  have s_ge: "0 \<le> score"
    by (simp add: score_def matchAnywhere_def matchStartOfWord_def matchWholeWord_def)
  have s_le: "score \<le> maximumScore"
    by (simp add: score_def matchAnywhere_def matchStartOfWord_def matchWholeWord_def
        maximumScore_def)
  have none: "score = 0 \<and> count = 0" if "\<not> occurs term string"
  proof -
    have "length (split string r) = 1"
      using that len ge1 by linarith
    then show ?thesis
      using that by (simp add: score_def count_def)
  qed
  have some: "score = matchAnywhere
          + (if occursAtWordStart term string then matchStartOfWord else 0)
          + (if occursAsWholeWord term string then matchWholeWord else 0)"
    if "occurs term string"
    using that by (simp add: score_def)
  note v' = v [folded count_def]
  from v' inv s_ge s_le c_ge c_le none some g c_min count_def show ?thesis
    by blast
qed

theorem scoreTerm_spec_witness:
  "\<forall>h. smartcaseCache newRegexpCache \<and> ''an'' \<noteq> [] \<and> \<not> inheritedName ''an'' \<and>
     occursAsWholeWord ''an'' ''banana an'' \<and> \<not> occurs ''an'' ''bnn'' \<and>
     (\<exists>this'. scoreTerm h newRegexpCache ''an'' ''banana an'' = Inr ((3, 6), this')) \<and>
     (\<exists>this'. scoreTerm h newRegexpCache ''an'' ''bnn'' = Inr ((0, 0), this'))"
proof
  fix h
  have ne: "''an'' \<noteq> []" by simp
  have w: "occursAsWholeWord ''an'' ''banana an''" by code_simp
  have s: "occursAtWordStart ''an'' ''banana an''" by code_simp
  have o: "occurs ''an'' ''banana an''" by code_simp
  have n: "\<not> occurs ''an'' ''bnn''" by code_simp
  define r0 where "r0 = \<lparr>ident = 0, source = ''an'', ignoreCase = True,
      matcher = nodesMatcher True [Chr CHR ''a'', Chr CHR ''n'']\<rparr>"
  have k: "regexpString ''an'' None None = ''an''"
    by (simp add: regexpString_simps isSpecial_iff backslash_def)
  have p: "parseRegexp [] [] None (regexpString ''an'' None None) = Parsed (map Chr ''an'')"
    by (simp only: regexpString_simps parse_anywhere)
  have ni: "\<not> inheritedName (regexpString ''an'' None None)"
    by (simp add: k not_inherited_an)
  have up: "\<not> hasUpperCase ''an''"
    by (simp add: hasUpperCase_def isUpperCase_def codeUnit_def)
  have g0: "\<exists>this1. get h newRegexpCache ''an'' None None = Inr (RegExpValue r0, this1)"
    using get_fresh [OF p ni, of h] by (simp add: k up r0_def)
  have sp: "split ''banana an'' r0 = [''b'', [], ''a '', []]"
    unfolding r0_def by code_simp
  obtain score count this' r this1
    where v: "scoreTerm h newRegexpCache ''an'' ''banana an'' = Inr ((score, count), this')"
      and sc: "occurs ''an'' ''banana an'' \<longrightarrow>
        score = matchAnywhere
          + (if occursAtWordStart ''an'' ''banana an'' then matchStartOfWord else 0)
          + (if occursAsWholeWord ''an'' ''banana an'' then matchWholeWord else 0)"
      and g: "get h newRegexpCache ''an'' None None = Inr (RegExpValue r, this1)"
      and c: "count = int (length ''an'') * (int (length (split ''banana an'' r)) - 1)"
    using scoreTerm_spec [OF smartcaseCache_new ne not_inherited_an(1), of h "''banana an''"]
    by blast
  from g g0 have "r = r0" by auto
  with c sp have "count = 6" by simp
  moreover from sc w s o have "score = 3"
    by (simp add: matchAnywhere_def matchStartOfWord_def matchWholeWord_def)
  ultimately have a: "\<exists>this'. scoreTerm h newRegexpCache ''an'' ''banana an''
      = Inr ((3, 6), this')"
    using v by simp
  obtain score' count' this''
    where v': "scoreTerm h newRegexpCache ''an'' ''bnn'' = Inr ((score', count'), this'')"
      and z: "\<not> occurs ''an'' ''bnn'' \<longrightarrow> score' = 0 \<and> count' = 0"
    using scoreTerm_spec [OF smartcaseCache_new ne not_inherited_an(1), of h "''bnn''"]
    by blast
  from v' z n have b: "\<exists>this'. scoreTerm h newRegexpCache ''an'' ''bnn'' = Inr ((0, 0), this')"
    by simp
  from a b w n not_inherited_an(1) smartcaseCache_new
  show "smartcaseCache newRegexpCache \<and> ''an'' \<noteq> [] \<and> \<not> inheritedName ''an'' \<and>
     occursAsWholeWord ''an'' ''banana an'' \<and> \<not> occurs ''an'' ''bnn'' \<and>
     (\<exists>this'. scoreTerm h newRegexpCache ''an'' ''banana an'' = Inr ((3, 6), this')) \<and>
     (\<exists>this'. scoreTerm h newRegexpCache ''an'' ''bnn'' = Inr ((0, 0), this'))"
    by simp
qed

lemma scoreTerm_inherited_tiers:
  "occursAsWholeWord ''constructor'' ''constructor xy'' \<and>
   occursAtWordStart ''constructor'' ''constructorx y'' \<and>
   \<not> occursAsWholeWord ''constructor'' ''constructorx y'' \<and>
   map_sum id fst (scoreTerm h newRegexpCache ''constructor'' ''constructor xy'') = Inr (0, 0) \<and>
   map_sum id fst (scoreTerm h newRegexpCache ''constructor'' ''constructorx y'') = Inr (0, 0)"
  by code_simp

text \<open>
  Claim C9, as the specification words it, fails in two ways. It rests on the word boundary
  of the glossary. Read so, the term \<open>.com\<close> is a whole word of \<open>.com x\<close>, and in \<open>a.comb\<close> it
  starts at a word boundary without being a whole word; both strings have six characters.
  The program scores the first \<open>matchAnywhere\<close> and the second \<open>matchAnywhere +
  matchStartOfWord\<close>: the whole word scores less. And the term \<open>constructor\<close> is a whole word
  of \<open>constructor xy\<close> and only starts a word in \<open>constructorx y\<close>, two strings of fourteen
  characters, and scores 0 in both.
\<close>

theorem scoreTerm_tiers_counterexample:
  "(glossaryWholeWord ''.com'' ''.com x'' \<and>
    glossaryWordStart ''.com'' ''a.comb'' \<and> \<not> glossaryWholeWord ''.com'' ''a.comb'' \<and>
    length ''.com x'' = length ''a.comb'' \<and>
    (\<forall>h. \<exists>thisA thisB.
       scoreTerm h newRegexpCache ''.com'' ''.com x'' = Inr ((matchAnywhere, 4), thisA) \<and>
       scoreTerm h newRegexpCache ''.com'' ''a.comb''
         = Inr ((matchAnywhere + matchStartOfWord, 4), thisB)) \<and>
    \<not> matchAnywhere + matchStartOfWord < matchAnywhere) \<and>
   (occursAsWholeWord ''constructor'' ''constructor xy'' \<and>
    occursAtWordStart ''constructor'' ''constructorx y'' \<and>
    \<not> occursAsWholeWord ''constructor'' ''constructorx y'' \<and>
    length ''constructor xy'' = length ''constructorx y'' \<and>
    (\<forall>h. \<exists>thisA thisB.
       scoreTerm h newRegexpCache ''constructor'' ''constructor xy'' = Inr ((0, 0), thisA) \<and>
       scoreTerm h newRegexpCache ''constructor'' ''constructorx y'' = Inr ((0, 0), thisB)) \<and>
    \<not> (0::int) < 0)"
proof (intro conjI allI)
  show "glossaryWholeWord ''.com'' ''.com x''" by code_simp
  show "glossaryWordStart ''.com'' ''a.comb''" by code_simp
  show "\<not> glossaryWholeWord ''.com'' ''a.comb''" by code_simp
  show "length ''.com x'' = length ''a.comb''" by simp
  show "\<not> matchAnywhere + matchStartOfWord < matchAnywhere"
    by (simp add: matchStartOfWord_def)
  show "occursAsWholeWord ''constructor'' ''constructor xy''"
    using scoreTerm_inherited_tiers by (rule conjunct1)
  show "occursAtWordStart ''constructor'' ''constructorx y''"
    using scoreTerm_inherited_tiers by simp
  show "\<not> occursAsWholeWord ''constructor'' ''constructorx y''"
    using scoreTerm_inherited_tiers by simp
  show "length ''constructor xy'' = length ''constructorx y''" by simp
  show "\<not> (0::int) < 0" by simp
next
  fix h
  have "map_sum id fst (scoreTerm h newRegexpCache ''.com'' ''.com x'')
      = Inr (matchAnywhere, 4)"
    by code_simp
  then have "\<exists>thisA. scoreTerm h newRegexpCache ''.com'' ''.com x''
      = Inr ((matchAnywhere, 4), thisA)"
    by (rule map_sum_fst_Inr)
  moreover have "map_sum id fst (scoreTerm h newRegexpCache ''.com'' ''a.comb'')
      = Inr (matchAnywhere + matchStartOfWord, 4)"
    by code_simp
  then have "\<exists>thisB. scoreTerm h newRegexpCache ''.com'' ''a.comb''
        = Inr ((matchAnywhere + matchStartOfWord, 4), thisB)"
    by (rule map_sum_fst_Inr)
  ultimately show "\<exists>thisA thisB.
      scoreTerm h newRegexpCache ''.com'' ''.com x'' = Inr ((matchAnywhere, 4), thisA) \<and>
      scoreTerm h newRegexpCache ''.com'' ''a.comb''
        = Inr ((matchAnywhere + matchStartOfWord, 4), thisB)"
    by (simp only: ex_simps)
next
  fix h
  have "map_sum id fst (scoreTerm h newRegexpCache ''constructor'' ''constructor xy'')
      = Inr (0, 0)"
    using scoreTerm_inherited_tiers by simp
  then have "\<exists>thisA. scoreTerm h newRegexpCache ''constructor'' ''constructor xy''
      = Inr ((0, 0), thisA)"
    by (rule map_sum_fst_Inr)
  moreover have "map_sum id fst (scoreTerm h newRegexpCache ''constructor'' ''constructorx y'')
      = Inr (0, 0)"
    using scoreTerm_inherited_tiers by simp
  then have "\<exists>thisB. scoreTerm h newRegexpCache ''constructor'' ''constructorx y''
      = Inr ((0, 0), thisB)"
    by (rule map_sum_fst_Inr)
  ultimately show "\<exists>thisA thisB.
       scoreTerm h newRegexpCache ''constructor'' ''constructor xy'' = Inr ((0, 0), thisA) \<and>
       scoreTerm h newRegexpCache ''constructor'' ''constructorx y'' = Inr ((0, 0), thisB)"
    by (simp only: ex_simps)
qed

text \<open>
  Claim C9, amended: for one term, a string in which the term occurs as a whole word scores
  strictly higher than a string in which it occurs at the start of a word but not as a
  whole word, which in turn scores strictly higher than a string in which it occurs only
  inside words, where a word starts and ends at the positions at which the assertion \<open>\b\<close>
  holds: exactly one of the two neighbouring characters is a word character. The lengths of
  the strings play no role. This is stated for a non-empty term that is not the name of a
  property every plain object inherits, and for caches that are smartcase.
\<close>

theorem scoreTerm_tiers:
  assumes "smartcaseCache thisA" "smartcaseCache thisB" "smartcaseCache thisC"
    and "term \<noteq> []" "\<not> inheritedName term"
    and "occursAsWholeWord term whole"
    and "occursAtWordStart term start" "\<not> occursAsWholeWord term start"
    and "occurs term mid" "\<not> occursAtWordStart term mid"
  shows "\<exists>sW cW thisA' sS cS thisB' sM cM thisC'.
     scoreTerm h thisA term whole = Inr ((sW, cW), thisA') \<and>
     scoreTerm h thisB term start = Inr ((sS, cS), thisB') \<and>
     scoreTerm h thisC term mid = Inr ((sM, cM), thisC') \<and>
     sM < sS \<and> sS < sW \<and>
     sW = matchAnywhere + matchStartOfWord + matchWholeWord \<and>
     sS = matchAnywhere + matchStartOfWord \<and> sM = matchAnywhere"
proof -
  have ow: "occursAtWordStart term whole" "occurs term whole"
    using assms(6) wholeWord_imp_wordStart wordStart_imp_occurs by blast+
  have os: "occurs term start"
    using assms(7) wordStart_imp_occurs by blast
  have nm: "\<not> occursAsWholeWord term mid"
    using assms(10) wholeWord_imp_wordStart by blast
  obtain cW thisA' where a: "scoreTerm h thisA term whole =
      Inr ((matchAnywhere + matchStartOfWord + matchWholeWord, cW), thisA')"
    using scoreTerm_value [OF assms(1,4,5), of h whole] assms(6) ow by auto
  obtain cS thisB' where b: "scoreTerm h thisB term start =
      Inr ((matchAnywhere + matchStartOfWord, cS), thisB')"
    using scoreTerm_value [OF assms(2,4,5), of h start] assms(7,8) os by auto
  obtain cM thisC' where c: "scoreTerm h thisC term mid = Inr ((matchAnywhere, cM), thisC')"
    using scoreTerm_value [OF assms(3,4,5), of h mid] assms(9,10) nm by auto
  have "matchAnywhere < matchAnywhere + matchStartOfWord"
    "matchAnywhere + matchStartOfWord < matchAnywhere + matchStartOfWord + matchWholeWord"
    by (simp_all add: matchStartOfWord_def matchWholeWord_def)
  with a b c show ?thesis by blast
qed

theorem scoreTerm_tiers_witness:
  "\<forall>h. smartcaseCache newRegexpCache \<and> ''com'' \<noteq> [] \<and> \<not> inheritedName ''com'' \<and>
     occursAsWholeWord ''com'' ''abcX com'' \<and>
     occursAtWordStart ''com'' ''abc comX'' \<and> \<not> occursAsWholeWord ''com'' ''abc comX'' \<and>
     occurs ''com'' ''abccomX '' \<and> \<not> occursAtWordStart ''com'' ''abccomX '' \<and>
     (\<exists>sW cW thisA' sS cS thisB' sM cM thisC'.
       scoreTerm h newRegexpCache ''com'' ''abcX com'' = Inr ((sW, cW), thisA') \<and>
       scoreTerm h newRegexpCache ''com'' ''abc comX'' = Inr ((sS, cS), thisB') \<and>
       scoreTerm h newRegexpCache ''com'' ''abccomX '' = Inr ((sM, cM), thisC') \<and>
       sM < sS \<and> sS < sW)"
proof
  fix h
  have ne: "''com'' \<noteq> []" by simp
  have w: "occursAsWholeWord ''com'' ''abcX com''" by code_simp
  have s: "occursAtWordStart ''com'' ''abc comX''" by code_simp
  have ns: "\<not> occursAsWholeWord ''com'' ''abc comX''" by code_simp
  have m: "occurs ''com'' ''abccomX ''" by code_simp
  have nm: "\<not> occursAtWordStart ''com'' ''abccomX ''" by code_simp
  note t = scoreTerm_tiers [OF smartcaseCache_new smartcaseCache_new smartcaseCache_new
      ne not_inherited_an(2) w s ns m nm, of h]
  from t have "\<exists>sW cW thisA' sS cS thisB' sM cM thisC'.
       scoreTerm h newRegexpCache ''com'' ''abcX com'' = Inr ((sW, cW), thisA') \<and>
       scoreTerm h newRegexpCache ''com'' ''abc comX'' = Inr ((sS, cS), thisB') \<and>
       scoreTerm h newRegexpCache ''com'' ''abccomX '' = Inr ((sM, cM), thisC') \<and>
       sM < sS \<and> sS < sW"
    by blast
  with w s ns m nm smartcaseCache_new not_inherited_an(2)
  show "smartcaseCache newRegexpCache \<and> ''com'' \<noteq> [] \<and> \<not> inheritedName ''com'' \<and>
     occursAsWholeWord ''com'' ''abcX com'' \<and>
     occursAtWordStart ''com'' ''abc comX'' \<and> \<not> occursAsWholeWord ''com'' ''abc comX'' \<and>
     occurs ''com'' ''abccomX '' \<and> \<not> occursAtWordStart ''com'' ''abccomX '' \<and>
     (\<exists>sW cW thisA' sS cS thisB' sM cM thisC'.
       scoreTerm h newRegexpCache ''com'' ''abcX com'' = Inr ((sW, cW), thisA') \<and>
       scoreTerm h newRegexpCache ''com'' ''abc comX'' = Inr ((sS, cS), thisB') \<and>
       scoreTerm h newRegexpCache ''com'' ''abccomX '' = Inr ((sM, cM), thisC') \<and>
       sM < sS \<and> sS < sW)"
    by simp
qed

lemma scoreTerm_bounds:
  assumes "smartcaseCache this" "term \<noteq> []" "\<not> inheritedName term"
  shows "\<exists>s c this'. scoreTerm h this term string = Inr ((s, c), this') \<and> smartcaseCache this' \<and>
     0 \<le> s \<and> s \<le> maximumScore \<and> 0 \<le> c \<and> c \<le> int (length string) \<and>
     (\<not> occurs term string \<longrightarrow> s = 0 \<and> c = 0)"
proof -
  define s where "s =
     (if occurs term string
      then matchAnywhere
        + (if occursAtWordStart term string then matchStartOfWord else 0)
        + (if occursAsWholeWord term string then matchWholeWord else 0)
      else 0)"
  obtain r this1 this' where
    v: "scoreTerm h this term string =
       Inr ((s, int (length term) * (int (length (split string r)) - 1)), this')"
    and inv: "smartcaseCache this'"
    and sum: "sum_list (map length (split string r))
        + length term * (length (split string r) - 1) = length string"
    and ge1: "1 \<le> length (split string r)"
    and len: "1 < length (split string r) \<longleftrightarrow> occurs term string"
    using scoreTerm_value [OF assms, of h string] unfolding s_def by blast
  define c where "c = int (length term) * (int (length (split string r)) - 1)"
  have cn: "int (length term * (length (split string r) - 1)) = c"
    using ge1 by (simp add: c_def of_nat_diff)
  have c_ge: "0 \<le> c"
    by (simp only: cn [symmetric] of_nat_0_le_iff)
  have c_le: "c \<le> int (length string)"
    using sum cn by linarith
  have s_ge: "0 \<le> s"
    by (simp add: s_def matchAnywhere_def matchStartOfWord_def matchWholeWord_def)
  have s_le: "s \<le> maximumScore"
    by (simp add: s_def matchAnywhere_def matchStartOfWord_def matchWholeWord_def
        maximumScore_def)
  have none: "s = 0 \<and> c = 0" if "\<not> occurs term string"
  proof -
    have "length (split string r) = 1"
      using that len ge1 by linarith
    then show ?thesis
      using that by (simp add: s_def c_def)
  qed
  note v' = v [folded c_def]
  from v' inv s_ge s_le c_ge c_le none show ?thesis
    by blast
qed


lemma scoreTerms_bounds:
  assumes "smartcaseCache this" "\<forall>t\<in>set queryTerms. t \<noteq> [] \<and> \<not> inheritedName t"
  shows "\<exists>us uc ts tc this'.
     scoreTerms h this queryTerms url title (a, b, c, d) =
       Inr ((a + us, b + uc, c + ts, d + tc), this') \<and>
     smartcaseCache this' \<and>
     0 \<le> us \<and> us \<le> maximumScore * int (length queryTerms) \<and> 0 \<le> uc \<and>
     0 \<le> ts \<and> ts \<le> maximumScore * int (length queryTerms) \<and> 0 \<le> tc \<and>
     ((\<forall>t\<in>set queryTerms. \<not> occurs t url) \<longrightarrow> us = 0) \<and>
     ((\<forall>t\<in>set queryTerms. \<not> occurs t (the title)) \<longrightarrow> ts = 0) \<and>
     (\<not> truthy title \<longrightarrow> ts = 0) \<and>
     (url = [] \<longrightarrow> uc = 0)"
  using assms
proof (induction queryTerms arbitrary: this a b c d)
  case Nil
  show ?case
    by (intro exI [of _ 0] exI [of _ "this"]) (simp add: Nil.prems)
next
  case (Cons t terms)
  have tne: "t \<noteq> []" "\<not> inheritedName t"
    and rest: "\<forall>t\<in>set terms. t \<noteq> [] \<and> \<not> inheritedName t"
    using Cons.prems(2) by simp_all
  obtain s k this1 where u: "scoreTerm h this t url = Inr ((s, k), this1)"
    and i1: "smartcaseCache this1"
    and sb: "0 \<le> s" "s \<le> maximumScore" and kb: "0 \<le> k" "k \<le> int (length url)"
    and z: "\<not> occurs t url \<longrightarrow> s = 0 \<and> k = 0"
    using scoreTerm_bounds [OF Cons.prems(1) tne, of h url] by blast
  show ?case
  proof (cases "truthy title")
    case False
    obtain us uc ts tc this' where
      r: "scoreTerms h this1 terms url title (a + s, b + k, c, d) =
           Inr ((a + s + us, b + k + uc, c + ts, d + tc), this')"
      and i': "smartcaseCache this'"
      and b: "0 \<le> us" "us \<le> maximumScore * int (length terms)" "0 \<le> uc"
        "0 \<le> ts" "ts \<le> maximumScore * int (length terms)" "0 \<le> tc"
      and zu: "(\<forall>t\<in>set terms. \<not> occurs t url) \<longrightarrow> us = 0"
      and zt: "(\<forall>t\<in>set terms. \<not> occurs t (the title)) \<longrightarrow> ts = 0"
      and nt: "\<not> truthy title \<longrightarrow> ts = 0"
      and eu: "url = [] \<longrightarrow> uc = 0"
      using Cons.IH [OF i1 rest, of "a + s" "b + k" c d] by blast
    have e: "scoreTerms h this (t # terms) url title (a, b, c, d) =
        Inr ((a + (s + us), b + (k + uc), c + ts, d + tc), this')"
      using u False r by (simp add: add.assoc)
    have le: "s + us \<le> maximumScore * int (length (t # terms))"
      using sb b by (simp add: algebra_simps)
    have "0 \<le> s + us" "0 \<le> k + uc"
      using sb kb b by simp_all
    moreover have "(\<forall>x\<in>set (t # terms). \<not> occurs x url) \<longrightarrow> s + us = 0"
      using z zu by simp
    moreover have "(\<forall>x\<in>set (t # terms). \<not> occurs x (the title)) \<longrightarrow> ts = 0"
      using nt False by simp
    moreover have "url = [] \<longrightarrow> k + uc = 0"
      using eu kb by auto
    moreover have "ts \<le> maximumScore * int (length (t # terms))"
      using b(5) by (simp add: algebra_simps maximumScore_def)
    ultimately show ?thesis
      using e i' le b(4,6) nt by blast
  next
    case True
    obtain s' k' this2 where u': "scoreTerm h this1 t (the title) = Inr ((s', k'), this2)"
      and i2: "smartcaseCache this2"
      and sb': "0 \<le> s'" "s' \<le> maximumScore" and kb': "0 \<le> k'"
      and z': "\<not> occurs t (the title) \<longrightarrow> s' = 0 \<and> k' = 0"
      using scoreTerm_bounds [OF i1 tne, of h "the title"] by blast
    obtain us uc ts tc this' where
      r: "scoreTerms h this2 terms url title (a + s, b + k, c + s', d + k') =
           Inr ((a + s + us, b + k + uc, c + s' + ts, d + k' + tc), this')"
      and i': "smartcaseCache this'"
      and b: "0 \<le> us" "us \<le> maximumScore * int (length terms)" "0 \<le> uc"
        "0 \<le> ts" "ts \<le> maximumScore * int (length terms)" "0 \<le> tc"
      and zu: "(\<forall>t\<in>set terms. \<not> occurs t url) \<longrightarrow> us = 0"
      and zt: "(\<forall>t\<in>set terms. \<not> occurs t (the title)) \<longrightarrow> ts = 0"
      and eu: "url = [] \<longrightarrow> uc = 0"
      using Cons.IH [OF i2 rest, of "a + s" "b + k" "c + s'" "d + k'"] by blast
    have e: "scoreTerms h this (t # terms) url title (a, b, c, d) =
        Inr ((a + (s + us), b + (k + uc), c + (s' + ts), d + (k' + tc)), this')"
      using u u' True r by (simp add: add.assoc)
    have le: "s + us \<le> maximumScore * int (length (t # terms))"
      using sb b by (simp add: algebra_simps)
    have le': "s' + ts \<le> maximumScore * int (length (t # terms))"
      using sb' b by (simp add: algebra_simps)
    have "0 \<le> s + us" "0 \<le> k + uc" "0 \<le> s' + ts" "0 \<le> k' + tc"
      using sb kb sb' kb' b by simp_all
    moreover have "(\<forall>x\<in>set (t # terms). \<not> occurs x url) \<longrightarrow> s + us = 0"
      using z zu by simp
    moreover have "(\<forall>x\<in>set (t # terms). \<not> occurs x (the title)) \<longrightarrow> s' + ts = 0"
      using z' zt by simp
    moreover have "url = [] \<longrightarrow> k + uc = 0"
      using eu kb by auto
    moreover have "\<not> truthy title \<longrightarrow> s' + ts = 0"
      using True by simp
    ultimately show ?thesis
      using e i' le le' by blast
  qed
qed

subsection \<open>matches\<close>

lemma matchThings_RegExp:
  "matchThings h (RegExpValue r) things matchedTerm
     = Inr (matchedTerm \<or> (\<exists>thing\<in>set things. test r thing))"
  by (induction things arbitrary: matchedTerm) (auto simp: stringMatch_test)

text \<open>
  In a smartcase cache, and for terms none of which is the name of a property every plain
  object inherits, \<open>matches\<close> returns true exactly when every query term occurs (as its
  pattern matches: smartcase, anywhere) in at least one of the things.
\<close>

lemma matches_value:
  assumes "smartcaseCache this" "\<forall>t\<in>set queryTerms. \<not> inheritedName t"
  shows "\<exists>this'. matches h this queryTerms things =
            Inr ((\<forall>term\<in>set queryTerms. \<exists>thing\<in>set things. occurs term thing), this') \<and>
          smartcaseCache this'"
  using assms
proof (induction queryTerms arbitrary: this)
  case Nil
  then show ?case by simp
next
  case (Cons t ts)
  have nt: "\<not> inheritedName t" and rest: "\<forall>t\<in>set ts. \<not> inheritedName t"
    using Cons.prems(2) by simp_all
  obtain r this1 where g: "get h this t None None = Inr (RegExpValue r, this1)"
    and i1: "smartcaseCache this1"
    and ic: "ignoreCase r = (\<not> hasUpperCase t)"
    and n: "matcher r = nodesMatcher (ignoreCase r) (map Chr t)"
    using get_anywhere [OF Cons.prems(1) nt] by blast
  have m: "matchThings h (RegExpValue r) things False
      = Inr (\<exists>thing\<in>set things. occurs t thing)"
    by (simp add: matchThings_RegExp test_anywhere [OF n ic])
  show ?case
  proof (cases "\<exists>thing\<in>set things. occurs t thing")
    case False
    with g m i1 show ?thesis by auto
  next
    case True
    obtain this' where r: "matches h this1 ts things =
          Inr ((\<forall>term\<in>set ts. \<exists>thing\<in>set things. occurs term thing), this')"
      and i': "smartcaseCache this'"
      using Cons.IH [OF i1 rest] by blast
    have "matches h this (t # ts) things = matches h this1 ts things"
      using g m True by simp
    with r i' True show ?thesis by auto
  qed
qed

lemma matches_no_terms: "matches h this [] things = Inr (True, this)"
  by simp

text \<open>
  Claim C5 says that \<open>matches\<close> returns true exactly when the pattern of every term matches
  at least one of the things. For the term \<open>constructor\<close> and the thing \<open>constructor\<close> the
  term occurs in the thing, yet \<open>get\<close> returns no pattern for it: reading the key
  \<open>constructor\<close> from the plain cache object finds the function every object inherits under
  that name, nothing is compiled, the thing is matched against the text of that function,
  and \<open>matches\<close> returns false.
\<close>

theorem matches_inherited_name:
  "occurs ''constructor'' ''constructor'' \<and>
   get h newRegexpCache ''constructor'' None None
     = Inr (InheritedValue ''constructor'', init newRegexpCache) \<and>
   matches h newRegexpCache [''constructor''] [''constructor'']
     = Inr (False, init newRegexpCache)"
proof (intro conjI)
  show "occurs ''constructor'' ''constructor''" by code_simp
next
  show g: "get h newRegexpCache ''constructor'' None None
      = Inr (InheritedValue ''constructor'', init newRegexpCache)"
    using inheritedName_constructor by (rule get_inherited_fresh)
  have p: "parseRegexp [] [] None (inheritedToString ''constructor'')
      = Parsed (map Chr ''function Object'' @ [Group []] @ map Chr '' { ''
          @ [Class ''native code''] @ map Chr '' }'')"
    by code_simp
  have "regexpExec (nodesMatcher False (map Chr ''function Object'' @ [Group []]
      @ map Chr '' { '' @ [Class ''native code''] @ map Chr '' }'')) None ''constructor'' = None"
    by code_simp
  then have "stringMatch h ''constructor'' (InheritedValue ''constructor'') = Inr False"
    by (simp add: stringMatch_def compile_parsed [OF p])
  then show "matches h newRegexpCache [''constructor''] [''constructor'']
      = Inr (False, init newRegexpCache)"
    by (simp add: g)
qed

text \<open>
  From the empty cache the examples of the test suite come out as smartcase demands:
  \<open>matches(["Mar"], "Mario")\<close> is true and \<open>matches(["Mar"], "mario")\<close> is false.
\<close>

lemma fresh_Mar:
  "hasUpperCase ''Mar''" "\<not> hasUpperCase ''ar''"
  "regexpString ''ar'' (Some ''M'') None = ''Mar''"
  "regexpString ''Mar'' None None = ''Mar''"
  "\<not> inheritedName ''Mar''"
  by (simp_all add: hasUpperCase_def isUpperCase_def codeUnit_def regexpString_simps
      isSpecial_iff backslash_def inheritedName_def inheritedNames_def)

lemma matches_smartcase_fresh:
  "(\<exists>this'. matches h newRegexpCache [''Mar''] [''Mario''] = Inr (True, this')) \<and>
   (\<exists>this'. matches h newRegexpCache [''Mar''] [''mario''] = Inr (False, this'))"
proof -
  define r0 where "r0 = \<lparr>ident = 0, source = ''Mar'', ignoreCase = False,
      matcher = nodesMatcher False [Chr CHR ''M'', Chr CHR ''a'', Chr CHR ''r'']\<rparr>"
  have p: "parseRegexp [] [] None (regexpString ''Mar'' None None) = Parsed (map Chr ''Mar'')"
    by (simp only: regexpString_simps parse_anywhere)
  have ni: "\<not> inheritedName (regexpString ''Mar'' None None)"
    by (simp add: fresh_Mar)
  obtain this1 where g: "get h newRegexpCache ''Mar'' None None = Inr (RegExpValue r0, this1)"
    using get_fresh [OF p ni, of h] by (simp add: fresh_Mar r0_def)
  have "test r0 ''Mario''"
    unfolding r0_def by code_simp
  moreover have "\<not> test r0 ''mario''"
    unfolding r0_def by code_simp
  ultimately show ?thesis
    by (simp add: g stringMatch_test)
qed

text \<open>
  Claim C6 says that the pattern \<open>get\<close> returns is case-sensitive exactly when the raw term
  has an upper-case letter. The cache is keyed by the pattern source alone, so a cached
  pattern is returned with the sensitivity of the call that created it: after
  \<open>get("ar", "M")\<close> the call \<open>get("Mar")\<close> returns the case-insensitive object, and
  \<open>matches(["Mar"], "mario")\<close> is true.
\<close>

theorem get_smartcase_collision:
  "\<exists>r this1 this2.
     get h newRegexpCache ''ar'' (Some ''M'') None = Inr (RegExpValue r, this1) \<and>
     get h this1 ''Mar'' None None = Inr (RegExpValue r, this1) \<and>
     hasUpperCase ''Mar'' \<and> ignoreCase r \<and>
     matches h this1 [''Mar''] [''mario''] = Inr (True, this2)"
proof -
  define r0 where "r0 = \<lparr>ident = 0, source = ''Mar'', ignoreCase = True,
      matcher = nodesMatcher True [Chr CHR ''M'', Chr CHR ''a'', Chr CHR ''r'']\<rparr>"
  have e: "escapeRegexSpecialCharacters ''Mar'' = ''Mar''"
    by (simp add: isSpecial_iff backslash_def)
  have p: "parseRegexp [] [] None (regexpString ''ar'' (Some ''M'') None)
      = Parsed (map Chr ''Mar'')"
    using parse_anywhere [of "''Mar''"] by (simp only: fresh_Mar(3) e)
  have ni: "\<not> inheritedName (regexpString ''ar'' (Some ''M'') None)"
    by (simp add: fresh_Mar)
  obtain this1
    where g1: "get h newRegexpCache ''ar'' (Some ''M'') None = Inr (RegExpValue r0, this1)"
    using get_fresh [OF p ni, of h] by (simp add: fresh_Mar r0_def)
  have g2: "get h this1 ''Mar'' None None = Inr (RegExpValue r0, this1)"
    using g1 by (rule get_colliding) (simp add: fresh_Mar)
  have "test r0 ''mario''"
    unfolding r0_def by code_simp
  then have "matches h this1 [''Mar''] [''mario''] = Inr (True, this1)"
    by (simp add: g2 stringMatch_test)
  with g1 g2 fresh_Mar(1) show ?thesis
    by (intro exI [of _ r0] exI [of _ this1]) (simp add: r0_def)
qed

subsection \<open>wordRelevancy\<close>

lemma normalizedScore_range:
  assumes "0 \<le> score" "score \<le> maximumScore * int n" "0 \<le> count" "0 < n" "0 < len"
  shows "\<exists>x. normalizedScore score count (numOfInt (maximumScore * int n)) len = Num x \<and>
           0 \<le> x \<and> x \<le> 1 \<and> (score = 0 \<longrightarrow> x = 0)"
proof -
  define m :: rat where "m = of_int (maximumScore * int n)"
  define q :: rat where "q = of_int score / m"
  define f :: rat where "f = min (of_int count) (of_nat len) / max (of_int count) (of_nat len)"
  have mpos: "0 < m"
    using assms(4) by (simp add: m_def maximumScore_def)
  have q0: "0 \<le> q"
    using assms(1) mpos by (simp add: q_def)
  have "(of_int score :: rat) \<le> m"
    unfolding m_def using assms(2) by (simp only: of_int_le_iff)
  then have q1: "q \<le> 1"
    using mpos by (simp add: q_def)
  have mx: "0 < max (of_int count :: rat) (of_nat len)"
    using assms(5) by (simp add: max_def)
  have f0: "0 \<le> f"
    using assms(3) mx by (simp add: f_def min_def)
  have "min (of_int count :: rat) (of_nat len) \<le> max (of_int count) (of_nat len)"
    by simp
  then have f1: "f \<le> 1"
    using mx by (simp add: f_def)
  have mne: "(of_int (maximumScore * int n) :: rat) \<noteq> 0"
    using assms(4) by (simp add: maximumScore_def)
  have d: "jsDiv (numOfInt score) (numOfInt (maximumScore * int n)) = Num q"
    unfolding numOfInt_def q_def m_def using mne by (simp del: of_int_mult)
  have nd: "normalizeDifference (numOfInt count) (numOfInt (int len)) = Num f"
    unfolding numOfInt_def f_def
    using assms(3,5) by (subst normalizeDifference_Num) simp_all
  have v: "normalizedScore score count (numOfInt (maximumScore * int n)) len = Num (q * f)"
    by (simp add: normalizedScore_def d nd)
  have "0 \<le> q * f"
    using q0 f0 by simp
  moreover have "q * f \<le> 1"
    using q0 q1 f0 f1 by (simp add: mult_le_one)
  moreover have "score = 0 \<longrightarrow> q * f = 0"
    by (simp add: q_def)
  ultimately show ?thesis
    using v by blast
qed

lemma combineScores_Num: "combineScores (Num u) (Num t) = Num ((max u t + t) / 2)"
  by (simp add: combineScores_def Let_def max_def)

lemma combineScores_range:
  assumes "0 \<le> u" "u \<le> 1" "0 \<le> t" "t \<le> (1::rat)"
  shows "0 \<le> (max u t + t) / 2" "(max u t + t) / 2 \<le> 1" "t \<le> (max u t + t) / 2"
  using assms by (simp_all add: max_def)

text \<open>
  With at least one query term, no empty term, no term that is the name of a property every
  plain object inherits, a smartcase cache and a non-empty URL, \<open>wordRelevancy\<close> returns
  a number between 0 and 1: the average of the title score and the larger of the two scores,
  hence at least the title score; without a title the title score is the URL score; and the
  result is 0 when no term occurs in the URL or the title.
\<close>

lemma wordRelevancy_range:
  assumes "smartcaseCache this" "queryTerms \<noteq> []"
    "\<forall>t\<in>set queryTerms. t \<noteq> [] \<and> \<not> inheritedName t" "url \<noteq> []"
  shows "\<exists>u t this' totals.
     scoreTerms h this queryTerms url title (0, 0, 0, 0) = Inr (totals, this') \<and>
     fieldScores totals (length queryTerms) url title = (Num u, Num t) \<and>
     wordRelevancy h this queryTerms url title = Inr (Num ((max u t + t) / 2), this') \<and>
     smartcaseCache this' \<and>
     0 \<le> (max u t + t) / 2 \<and> (max u t + t) / 2 \<le> 1 \<and> t \<le> (max u t + t) / 2 \<and>
     (\<not> truthy title \<longrightarrow> t = u) \<and>
     ((\<forall>x\<in>set queryTerms. \<not> occurs x url) \<and>
      (truthy title \<longrightarrow> (\<forall>x\<in>set queryTerms. \<not> occurs x (the title)))
        \<longrightarrow> (max u t + t) / 2 = 0)"
proof -
  define n where "n = length queryTerms"
  have npos: "0 < n" using assms(2) by (simp add: n_def)
  have upos: "0 < length url" using assms(4) by simp
  obtain us uc ts tc this' where
    r0: "scoreTerms h this queryTerms url title (0, 0, 0, 0) =
          Inr ((0 + us, 0 + uc, 0 + ts, 0 + tc), this')"
    and i': "smartcaseCache this'"
    and b: "0 \<le> us" "us \<le> maximumScore * int n" "0 \<le> uc"
      "0 \<le> ts" "ts \<le> maximumScore * int n" "0 \<le> tc"
    and zu: "(\<forall>t\<in>set queryTerms. \<not> occurs t url) \<longrightarrow> us = 0"
    and zt: "(\<forall>t\<in>set queryTerms. \<not> occurs t (the title)) \<longrightarrow> ts = 0"
    using scoreTerms_bounds [OF assms(1,3), of h url title 0 0 0 0, folded n_def] by blast
  have r: "scoreTerms h this queryTerms url title (0, 0, 0, 0) = Inr ((us, uc, ts, tc), this')"
    using r0 by simp
  obtain u where u: "normalizedScore us uc (numOfInt (maximumScore * int n)) (length url) = Num u"
    and ub: "0 \<le> u" "u \<le> 1" and uz: "us = 0 \<longrightarrow> u = 0"
    using normalizedScore_range [OF b(1,2,3) npos upos] by blast
  have "\<exists>t. fieldScores (us, uc, ts, tc) n url title = (Num u, Num t) \<and> 0 \<le> t \<and> t \<le> 1 \<and>
      (\<not> truthy title \<longrightarrow> t = u) \<and> (truthy title \<longrightarrow> ts = 0 \<longrightarrow> t = 0)"
  proof (cases "truthy title")
    case False
    with u ub show ?thesis
      by (simp add: fieldScores_def Let_def)
  next
    case True
    then have "0 < length (the title)"
      by (cases title) (simp_all add: truthy_def)
    from normalizedScore_range [OF b(4,5,6) npos this] obtain t
      where "normalizedScore ts tc (numOfInt (maximumScore * int n)) (length (the title)) = Num t"
        "0 \<le> t" "t \<le> 1" "ts = 0 \<longrightarrow> t = 0"
      by blast
    with u True show ?thesis
      by (simp add: fieldScores_def Let_def)
  qed
  then obtain t where f: "fieldScores (us, uc, ts, tc) n url title = (Num u, Num t)"
    and tb: "0 \<le> t" "t \<le> 1" and nt: "\<not> truthy title \<longrightarrow> t = u"
    and tz: "truthy title \<longrightarrow> ts = 0 \<longrightarrow> t = 0"
    by blast
  have w: "wordRelevancy h this queryTerms url title = Inr (Num ((max u t + t) / 2), this')"
    by (simp add: wordRelevancy_def r f [unfolded n_def] combineScores_Num)
  note cr = combineScores_range [OF ub tb]
  have zero: "(max u t + t) / 2 = 0"
    if "\<forall>x\<in>set queryTerms. \<not> occurs x url"
      "truthy title \<longrightarrow> (\<forall>x\<in>set queryTerms. \<not> occurs x (the title))"
  proof -
    have "u = 0" using that(1) zu uz by blast
    moreover have "t = 0"
    proof (cases "truthy title")
      case True
      with that(2) zt tz show ?thesis by blast
    next
      case False
      with nt \<open>u = 0\<close> show ?thesis by simp
    qed
    ultimately show ?thesis by simp
  qed
  from r f [unfolded n_def] w i' cr nt zero show ?thesis
    by blast
qed

text \<open>
  Claim C2 says that \<open>wordRelevancy\<close> returns a number in [0,1] for every list of terms, and
  exactly 0 when no term occurs, the case of zero terms included. With zero terms the code
  divides the zero score by \<open>maximumScore * 0\<close>: the result is NaN.
\<close>

theorem wordRelevancy_no_terms:
  "wordRelevancy h this [] url title = Inr (NaN, this)"
  by (simp add: wordRelevancy_def fieldScores_def normalizedScore_def numOfInt_def
      combineScores_def Let_def)

lemma normalizeDifference_Num_0_0: "normalizeDifference (Num 0) (Num 0) = NaN"
  by (simp add: normalizeDifference_def mathMax_def jsSub_def)

lemma jsMul_NaN: "jsMul x NaN = NaN"
  by (cases x) simp_all

lemma combineScores_NaN: "combineScores NaN t = NaN"
  by (cases t) (simp_all add: combineScores_def)

text \<open>With an empty URL the URL score, and with it the result, is NaN.\<close>

lemma wordRelevancy_empty_url:
  assumes "smartcaseCache this" "\<forall>t\<in>set queryTerms. t \<noteq> [] \<and> \<not> inheritedName t"
  shows "\<exists>this'. wordRelevancy h this queryTerms [] title = Inr (NaN, this')"
proof -
  obtain us uc ts tc this' where
    r0: "scoreTerms h this queryTerms [] title (0, 0, 0, 0) =
          Inr ((0 + us, 0 + uc, 0 + ts, 0 + tc), this')"
    and eu: "[] = ([]::string) \<longrightarrow> uc = 0"
    using scoreTerms_bounds [OF assms, of h "[]" title 0 0 0 0] by blast
  have r: "scoreTerms h this queryTerms [] title (0, 0, 0, 0) = Inr ((us, 0, ts, tc), this')"
    using r0 eu by simp
  have "normalizedScore us 0 m 0 = NaN" for m
    by (simp add: normalizedScore_def numOfInt_def normalizeDifference_Num_0_0 jsMul_NaN)
  then have "\<exists>t. fieldScores (us, 0, ts, tc) (length queryTerms) [] title = (NaN, t)"
    by (simp add: fieldScores_def Let_def)
  then show ?thesis
    by (auto simp: wordRelevancy_def r combineScores_NaN)
qed

text \<open>
  Claim C3 describes the title default, the raising of the URL score to the title score (so
  that the result is always at least the title score) and the average. For the term \<open>a\<close>,
  the empty URL and the title \<open>a\<close> the title score is 1, the URL score is NaN, the
  comparison \<open>urlScore < titleScore\<close> is false and the result is NaN, which is not at least 1.
\<close>

theorem wordRelevancy_title_pulled_down:
  "\<exists>totals this'.
     scoreTerms h newRegexpCache [''a''] [] (Some ''a'') (0, 0, 0, 0) = Inr (totals, this') \<and>
     fieldScores totals (length [''a'']) [] (Some ''a'') = (NaN, Num 1) \<and>
     wordRelevancy h newRegexpCache [''a''] [] (Some ''a'') = Inr (NaN, this')"
proof -
  have ne: "''a'' \<noteq> []" by simp
  have ni: "\<not> inheritedName ''a''" by (simp add: inheritedName_def inheritedNames_def)
  have n0: "\<not> occurs ''a'' []" by code_simp
  have o: "occurs ''a'' ''a''" by code_simp
  have s: "occursAtWordStart ''a'' ''a''" by code_simp
  have w: "occursAsWholeWord ''a'' ''a''" by code_simp
  obtain r1 thisA this1 where
    v1: "scoreTerm h newRegexpCache ''a'' [] =
       Inr ((0, int (length ''a'') * (int (length (split [] r1)) - 1)), this1)"
    and i1: "smartcaseCache this1"
    and ge1: "1 \<le> length (split [] r1)"
    and len1: "1 < length (split [] r1) \<longleftrightarrow> occurs ''a'' []"
    using scoreTerm_value [OF smartcaseCache_new ne ni, of h "[]"] n0 by auto
  have "length (split [] r1) = 1"
    using ge1 len1 n0 by linarith
  with v1 have u: "scoreTerm h newRegexpCache ''a'' [] = Inr ((0, 0), this1)"
    by simp
  obtain r2 thisB this2 where
    v2: "scoreTerm h this1 ''a'' ''a'' =
       Inr ((matchAnywhere + matchStartOfWord + matchWholeWord,
             int (length ''a'') * (int (length (split ''a'' r2)) - 1)), this2)"
    and sum2: "sum_list (map length (split ''a'' r2))
        + length ''a'' * (length (split ''a'' r2) - 1) = length ''a''"
    and len2: "1 < length (split ''a'' r2) \<longleftrightarrow> occurs ''a'' ''a''"
    using scoreTerm_value [OF i1 ne ni, of h "''a''"] o s w by auto
  have "length (split ''a'' r2) = 2"
    using sum2 len2 o by simp
  with v2 have t: "scoreTerm h this1 ''a'' ''a'' = Inr ((3, 1), this2)"
    by (simp add: matchAnywhere_def matchStartOfWord_def matchWholeWord_def)
  have r: "scoreTerms h newRegexpCache [''a''] [] (Some ''a'') (0, 0, 0, 0)
      = Inr ((0, 0, 3, 1), this2)"
    by (simp add: u t truthy_def)
  have f: "fieldScores (0, 0, 3, 1) (length [''a'']) [] (Some ''a'') = (NaN, Num 1)"
    by (simp add: fieldScores_def Let_def normalizedScore_def numOfInt_def truthy_def
        maximumScore_def normalizeDifference_Num_0_0 normalizeDifference_Num)
  have "wordRelevancy h newRegexpCache [''a''] [] (Some ''a'') = Inr (NaN, this2)"
    unfolding wordRelevancy_def r by (simp only: f sum.case prod.case combineScores_NaN)
  with r f show ?thesis by blast
qed

end
